theory Spec2Isabelle
  imports Complex_Main "HOL-Library.Word" "HOL-Library.Char_ord" "HOL-Library.List_Lexorder"
    "HOL-Library.Multiset"
begin

unbundle bit_operations_syntax

section \<open>Package discovery and import: the constructor of NutiViaRoutePlugin\<close>

text \<open>
  Source: the constructor \<^verbatim>\<open>NutiViaRoutePlugin::NutiViaRoutePlugin\<close> (nuti_viaroute.hpp).
  A \<^verbatim>\<open>std::string\<close> is a \<^typ>\<open>string\<close>; \<^verbatim>\<open>std::string::size_type\<close> is a 64-bit
  unsigned integer, modelled as \<^typ>\<open>nat\<close> with the wrap-around written out where the
  source subtracts; \<^verbatim>\<open>npos\<close> is the largest value of that type. A search that finds
  nothing returns \<^verbatim>\<open>npos\<close>, modelled as \<open>None\<close>.
\<close>

definition npos :: nat where
  "npos = 2 ^ 64 - 1"

definition size_t_sub :: "nat \<Rightarrow> nat \<Rightarrow> nat" where
  "size_t_sub a b = (a + 2 ^ 64 - b) mod 2 ^ 64"

definition size_t_of_pos :: "nat option \<Rightarrow> nat" where
  "size_t_of_pos p = (case p of None \<Rightarrow> npos | Some i \<Rightarrow> i)"

text \<open>\<^verbatim>\<open>s.find(c)\<close>: the index of the first occurrence of the character.\<close>

fun find_char :: "string \<Rightarrow> char \<Rightarrow> nat option" where
  "find_char [] c = None"
| "find_char (x # xs) c = (if x = c then Some 0 else map_option Suc (find_char xs c))"

text \<open>\<^verbatim>\<open>s.rfind(pat)\<close>: the index of the last occurrence of the pattern.\<close>

fun rfind_from :: "string \<Rightarrow> string \<Rightarrow> nat \<Rightarrow> nat option" where
  "rfind_from s pat 0 = (if take (length pat) s = pat then Some 0 else None)"
| "rfind_from s pat (Suc i) =
     (if take (length pat) (drop (Suc i) s) = pat then Some (Suc i) else rfind_from s pat i)"

definition rfind :: "string \<Rightarrow> string \<Rightarrow> nat option" where
  "rfind s pat =
     (if length pat \<le> length s then rfind_from s pat (length s - length pat) else None)"

text \<open>
  \<^verbatim>\<open>s.substr(pos, n)\<close>; the source calls it with \<open>pos = 0\<close> only, where it cannot throw.
  A count beyond the end of the string is cut to the end, as \<open>take\<close> does.
\<close>

definition substr :: "string \<Rightarrow> nat \<Rightarrow> nat \<Rightarrow> string" where
  "substr s pos n = take n (drop pos s)"

text \<open>
  The test \<^verbatim>\<open>file_name.rfind(".nutigraph") == file_name.size() - 10\<close>, with the unsigned
  subtraction of the source.
\<close>

definition has_nutigraph_suffix :: "string \<Rightarrow> bool" where
  "has_nutigraph_suffix file_name =
     (size_t_of_pos (rfind file_name ''.nutigraph'') = size_t_sub (length file_name) 10)"

text \<open>
  \<^verbatim>\<open>std::set<std::string>\<close>: a strictly ascending list under the byte-wise lexicographic
  order; iteration visits it in that order.
\<close>

definition set_insert :: "string \<Rightarrow> string list \<Rightarrow> string list" where
  "set_insert x xs = (if x \<in> set xs then xs else insort x xs)"

text \<open>
  The directory scan. A directory entry is its path (the base path and the file name)
  and whether it is a regular file; the order of the entries is the file system's. A
  base path that cannot be listed makes the iterator throw before any import; the model
  starts from the listing.
\<close>

fun scan_directory :: "(string \<times> bool) list \<Rightarrow> string list \<Rightarrow> string list" where
  "scan_directory [] nutigraph_files = nutigraph_files"
| "scan_directory ((file_name, regular) # rest) nutigraph_files =
     scan_directory rest
       (if regular \<and> has_nutigraph_suffix file_name
        then set_insert (substr file_name 0 (size_t_sub (length file_name) 10)) nutigraph_files
        else nutigraph_files)"

datatype log_level = logINFO | logWARNING

text \<open>
  \<^verbatim>\<open>RoutingGraph::import(const std::string&)\<close> is declared \<^verbatim>\<open>bool\<close> and its body is not
  part of the sources at hand: it is a parameter of the model. A call either returns a
  boolean or throws a \<^verbatim>\<open>std::exception\<close> with a message (\<^verbatim>\<open>what()\<close>).
\<close>

datatype import_outcome = Returned bool | Threw string

text \<open>
  What the constructor leaves behind: the lines written to the log, and the file names
  passed to \<^verbatim>\<open>import\<close>, both in order.
\<close>

record plugin_state =
  log :: "(log_level \<times> string) list"
  import_calls :: "string list"

definition write_log :: "log_level \<Rightarrow> string \<Rightarrow> plugin_state \<Rightarrow> plugin_state" where
  "write_log level msg st = st\<lparr>log := log st @ [(level, msg)]\<rparr>"

text \<open>
  The guarded call in the loop body: the return value of \<^verbatim>\<open>import\<close> is discarded, a
  \<^verbatim>\<open>std::exception\<close> is caught and logged as a warning.
\<close>

definition try_import :: "(string \<Rightarrow> import_outcome) \<Rightarrow> string \<Rightarrow> plugin_state \<Rightarrow> plugin_state" where
  "try_import graph_import nutigraph_file st =
     (let st1 = write_log logINFO (''Loading '' @ (nutigraph_file @ ''.nutigraph'')) st;
          st2 = st1\<lparr>import_calls := import_calls st1 @ [nutigraph_file @ ''.nutigraph'']\<rparr>
      in case graph_import (nutigraph_file @ ''.nutigraph'') of
           Returned b \<Rightarrow> st2
         | Threw what \<Rightarrow>
             write_log logWARNING
               (''Failed to load '' @ (nutigraph_file @ ''.nutigraph'') @ '': '' @ what) st2)"

text \<open>One iteration of the loop over \<^verbatim>\<open>nutigraph_files\<close>.\<close>

definition load_one ::
  "(string \<Rightarrow> import_outcome) \<Rightarrow> string list \<Rightarrow> string \<Rightarrow> plugin_state \<Rightarrow> plugin_state" where
  "load_one graph_import nutigraph_files nutigraph_file st =
     (case find_char nutigraph_file CHR ''-'' of
        None \<Rightarrow> try_import graph_import nutigraph_file st
      | Some pos \<Rightarrow>
          (let parent_nutigraph_file = substr nutigraph_file 0 pos
           in if parent_nutigraph_file \<in> set nutigraph_files
              then write_log logINFO
                     (''Skipping '' @ (nutigraph_file @ ''.nutigraph'') @ '' as ''
                        @ (parent_nutigraph_file @ ''.nutigraph'') @ '' exists'') st
              else try_import graph_import nutigraph_file st))"

definition load_all ::
  "(string \<Rightarrow> import_outcome) \<Rightarrow> string list \<Rightarrow> plugin_state" where
  "load_all graph_import nutigraph_files =
     fold (load_one graph_import nutigraph_files) nutigraph_files
       \<lparr>log = [], import_calls = []\<rparr>"

definition NutiViaRoutePlugin ::
  "(string \<Rightarrow> import_outcome) \<Rightarrow> (string \<times> bool) list \<Rightarrow> plugin_state" where
  "NutiViaRoutePlugin graph_import base_path =
     load_all graph_import (scan_directory base_path [])"

text \<open>
  The test of the loop body that decides whether a name is skipped: it contains a dash
  and the part before its first dash is itself in the set.
\<close>

definition is_skipped :: "string list \<Rightarrow> string \<Rightarrow> bool" where
  "is_skipped nutigraph_files nutigraph_file =
     (case find_char nutigraph_file CHR ''-'' of
        None \<Rightarrow> False
      | Some pos \<Rightarrow> substr nutigraph_file 0 pos \<in> set nutigraph_files)"

text \<open>Import functions and two listings of a directory data, for the examples below.\<close>

definition import_succeeds :: "string \<Rightarrow> import_outcome" where
  "import_succeeds file_name = Returned True"

definition import_rejects_a :: "string \<Rightarrow> import_outcome" where
  "import_rejects_a file_name =
     (if file_name = ''data/a.nutigraph'' then Returned False else Returned True)"

definition import_throws_a :: "string \<Rightarrow> import_outcome" where
  "import_throws_a file_name =
     (if file_name = ''data/a.nutigraph'' then Threw ''bad version'' else Returned True)"

definition region_directory :: "(string \<times> bool) list" where
  "region_directory =
     [(''data/region-sub.nutigraph'', True), (''data/region.nutigraph'', True)]"

definition ab_directory :: "(string \<times> bool) list" where
  "ab_directory = [(''data/a.nutigraph'', True), (''data/b.nutigraph'', True)]"

definition dashed_directory :: "(string \<times> bool) list" where
  "dashed_directory =
     [(''my-data/region-sub.nutigraph'', True), (''my-data/region.nutigraph'', True)]"

section \<open>Request handling: NutiViaRoutePlugin::HandleRequest\<close>

text \<open>
  Source: \<^verbatim>\<open>NutiViaRoutePlugin::HandleRequest\<close> (nuti_viaroute.hpp). The route finder, the
  result type and the code that turns the results into a polyline and instruction rows
  are not among the sources at hand; they are the fields of \<open>routing_env\<close>, a parameter
  of the model. \<^verbatim>\<open>COORDINATE_PRECISION\<close> is a constant declared elsewhere, a parameter as
  well. The division of an integer coordinate by it is a division of doubles in the
  source and of reals here. The model returns, beside the status and the JSON object,
  the routing queries handed to the finder, in order.
\<close>

record FixedPointCoordinate =
  lat :: int
  lon :: int

record RouteParameters =
  coordinates :: "FixedPointCoordinate list"
  zoom_level :: int

type_synonym WGSPos = "real \<times> real"

datatype RoutingQuery = RoutingQuery WGSPos WGSPos

datatype Status = Ok | EmptyResult | NoSegment | Error

datatype RoutingResult_Status = FAILED | SUCCESS

datatype 'r find_outcome = FindReturned 'r | FindThrew string

datatype json_value = String string | Number real | Array "json_value list"

type_synonym json_object = "string \<rightharpoonup> json_value"

record 'r routing_env =
  COORDINATE_PRECISION :: real
  finder_find :: "RoutingQuery \<Rightarrow> 'r find_outcome"
  getStatus :: "'r \<Rightarrow> RoutingResult_Status"
  describe_route :: "'r list \<Rightarrow> int \<Rightarrow> string \<times> json_value"

text \<open>\<^verbatim>\<open>static_cast<int>\<close> of a \<^verbatim>\<open>std::size_t\<close>: the low 32 bits, read as two's complement.\<close>

definition int_of_size_t :: "nat \<Rightarrow> int" where
  "int_of_size_t n = (let m = int (n mod 2 ^ 32) in if m < 2 ^ 31 then m else m - 2 ^ 32)"

text \<open>\<^verbatim>\<open>std::to_string\<close> on an integer: its decimal digits, with a sign when negative.\<close>

fun decimal :: "nat \<Rightarrow> string" where
  "decimal n = (if n < 10 then [''0123456789'' ! n]
                else decimal (n div 10) @ [''0123456789'' ! (n mod 10)])"

declare decimal.simps [simp del]

definition to_string :: "int \<Rightarrow> string" where
  "to_string i = (if i < 0 then CHR ''-'' # decimal (nat (- i)) else decimal (nat i))"

definition toWGSPos :: "real \<Rightarrow> FixedPointCoordinate \<Rightarrow> WGSPos" where
  "toWGSPos precision c = (real_of_int (lat c) / precision, real_of_int (lon c) / precision)"

text \<open>
  The loop \<^verbatim>\<open>for (i = 1; i < coordinates.size(); i++)\<close>, over the list of the values of
  \<open>i\<close>. The body reads \<^verbatim>\<open>coordinates[0]\<close> and \<^verbatim>\<open>coordinates[1]\<close>; it runs only when there
  are at least two coordinates, so both reads are in range.
\<close>

fun route_legs ::
  "'r routing_env \<Rightarrow> FixedPointCoordinate list \<Rightarrow> nat list \<Rightarrow> 'r list \<Rightarrow> RoutingQuery list
     \<Rightarrow> (string + 'r list) \<times> RoutingQuery list" where
  "route_legs env coords [] results queries = (Inr results, queries)"
| "route_legs env coords (i # rest) results queries =
     (let pos0 = toWGSPos (COORDINATE_PRECISION env) (coords ! 0);
          pos1 = toWGSPos (COORDINATE_PRECISION env) (coords ! 1);
          query = RoutingQuery pos0 pos1;
          queries' = queries @ [query]
      in case finder_find env query of
           FindThrew what \<Rightarrow> (Inl (''Routing failed, exception: '' @ what), queries')
         | FindReturned result \<Rightarrow>
             if getStatus env result = FAILED then (Inl ''Routing failed'', queries')
             else route_legs env coords rest (results @ [result]) queries')"

definition HandleRequest ::
  "'r routing_env \<Rightarrow> int \<Rightarrow> RouteParameters \<Rightarrow> json_object
     \<Rightarrow> Status \<times> json_object \<times> RoutingQuery list" where
  "HandleRequest env max_locations_viaroute route_parameters json_result =
     (let size = length (coordinates route_parameters)
      in if max_locations_viaroute > 0 \<and> int_of_size_t size > max_locations_viaroute
         then (Error,
               json_result(''status_message'' \<mapsto> String
                 (''Number of entries '' @ to_string (int size)
                    @ '' is higher than current maximum (''
                    @ to_string max_locations_viaroute @ '')'')),
               [])
         else if size < 2
         then (Error, json_result(''status_message'' \<mapsto> String ''Invalid coordinates''), [])
         else (case route_legs env (coordinates route_parameters) [1..<size] [] [] of
                 (Inl message, queries) \<Rightarrow>
                   (Error, json_result(''status_message'' \<mapsto> String message), queries)
               | (Inr results, queries) \<Rightarrow>
                   (let (geometry, instructions) =
                          describe_route env results (zoom_level route_parameters)
                    in (Ok,
                        json_result(''route_geometry'' \<mapsto> String geometry,
                                    ''status_message'' \<mapsto> String ''Found route between points'',
                                    ''route_instructions'' \<mapsto> instructions),
                        queries))))"

text \<open>The one query every leg is built from, and whether the finder answers it.\<close>

definition leg_query :: "'r routing_env \<Rightarrow> FixedPointCoordinate list \<Rightarrow> RoutingQuery" where
  "leg_query env coords =
     RoutingQuery (toWGSPos (COORDINATE_PRECISION env) (coords ! 0))
                  (toWGSPos (COORDINATE_PRECISION env) (coords ! 1))"

definition leg_succeeds :: "'r routing_env \<Rightarrow> RoutingQuery \<Rightarrow> bool" where
  "leg_succeeds env query =
     (case finder_find env query of
        FindThrew what \<Rightarrow> False
      | FindReturned result \<Rightarrow> getStatus env result \<noteq> FAILED)"

text \<open>An environment and a request of three coordinates for the examples below.\<close>

definition test_env :: "unit routing_env" where
  "test_env = \<lparr>COORDINATE_PRECISION = 1000000,
               finder_find = (\<lambda>q. FindReturned ()),
               getStatus = (\<lambda>r. SUCCESS),
               describe_route = (\<lambda>rs z. ('''', Array []))\<rparr>"

definition test_coordinates :: "FixedPointCoordinate list" where
  "test_coordinates = [\<lparr>lat = 1000000, lon = 2000000\<rparr>, \<lparr>lat = 3000000, lon = 4000000\<rparr>,
                       \<lparr>lat = 5000000, lon = 6000000\<rparr>]"

definition test_request :: RouteParameters where
  "test_request = \<lparr>coordinates = test_coordinates, zoom_level = 0\<rparr>"

section \<open>The routing graph: identifiers, blocks and the search queue\<close>

text \<open>
  Source: the class \<^verbatim>\<open>RoutingGraph\<close> (RoutingGraph.h). The fields of type \<^verbatim>\<open>int\<close> are
  integers here; where the source converts one to an unsigned size, the conversion is
  written out. \<^verbatim>\<open>Node::firstEdge\<close> and \<^verbatim>\<open>Node::lastEdge\<close> point into the edge array of the
  block that owns the node: they are offsets into \<open>edges\<close> of that block.
\<close>

record BlockId =
  packageId :: int
  blockIndex :: int

record ElementId =
  blockId :: BlockId
  elementIndex :: int

record EdgeData =
  weight :: nat
  turnInstruction :: nat

record Edge =
  targetNodeId :: ElementId
  contractedNodeId :: ElementId
  contracted :: bool
  forward :: bool
  backward :: bool
  edgeData :: EdgeData

record NodeData =
  geometryId :: ElementId
  geometryReversed :: bool
  nameId :: ElementId
  weight :: nat
  travelMode :: nat

record Node =
  firstEdge :: nat
  lastEdge :: nat
  nodeData :: NodeData

record NodeBlock =
  nodes :: "Node list"
  edges :: "Edge list"

subsection \<open>SearchNode and its ordering\<close>

text \<open>
  \<^verbatim>\<open>SearchNode::distance\<close> is a \<^verbatim>\<open>double\<close> holding a distance; it is taken as the real
  number it denotes (a distance is never NaN), on which the comparison of the source is
  the comparison of reals.
\<close>

record SearchNode =
  rtreeNodeId :: ElementId
  distance :: real

text \<open>\<^verbatim>\<open>SearchNode::operator<\<close>.\<close>

definition SearchNode_less :: "SearchNode \<Rightarrow> SearchNode \<Rightarrow> bool" where
  "SearchNode_less a searchNode = (distance a > distance searchNode)"

text \<open>
  The queue of the spatial search is a \<^verbatim>\<open>std::priority_queue<SearchNode>\<close>, a max-heap
  under \<^verbatim>\<open>operator<\<close>: \<^verbatim>\<open>top()\<close> is an element that is not less than any other, \<^verbatim>\<open>pop()\<close>
  removes it. The queue is the list of its elements; \<open>pq_top\<close> scans it for such an
  element; \<open>pq_drain n\<close> pops up to \<open>n\<close> times and lists what it popped.
\<close>

definition pq_top :: "SearchNode list \<Rightarrow> SearchNode" where
  "pq_top q = foldl (\<lambda>best x. if SearchNode_less best x then x else best) (hd q) (tl q)"

definition pq_pop :: "SearchNode list \<Rightarrow> SearchNode list" where
  "pq_pop q = remove1 (pq_top q) q"

fun pq_drain :: "nat \<Rightarrow> SearchNode list \<Rightarrow> SearchNode list" where
  "pq_drain 0 q = []"
| "pq_drain (Suc n) q = (if q = [] then [] else pq_top q # pq_drain n (pq_pop q))"

definition test_queue :: "SearchNode list" where
  "test_queue =
     [\<lparr>rtreeNodeId = \<lparr>blockId = \<lparr>packageId = 0, blockIndex = 0\<rparr>, elementIndex = 0\<rparr>,
       distance = 5\<rparr>,
      \<lparr>rtreeNodeId = \<lparr>blockId = \<lparr>packageId = 0, blockIndex = 1\<rparr>, elementIndex = 0\<rparr>,
       distance = 2\<rparr>,
      \<lparr>rtreeNodeId = \<lparr>blockId = \<lparr>packageId = 1, blockIndex = 0\<rparr>, elementIndex = 3\<rparr>,
       distance = 9\<rparr>]"

subsection \<open>Zig-zag and delta coding of geometries\<close>

text \<open>
  Modelled from the spec: the body of \<^verbatim>\<open>RoutingGraph::decodeZigZagValue\<close> is not among the
  sources (the header declares \<^verbatim>\<open>static int decodeZigZagValue(unsigned int val)\<close>); the
  specification gives it as \<^verbatim>\<open>(v >> 1) ^ -(v & 1)\<close>. The argument is a 32-bit unsigned
  value, the result the same 32 bits read as \<^verbatim>\<open>int\<close>; negation of an unsigned value wraps.
\<close>

definition decodeZigZagValue :: "32 word \<Rightarrow> 32 word" where
  "decodeZigZagValue val = (drop_bit 1 val) XOR (- (val AND 1))"

text \<open>
  Modelled from the spec: the encoder belongs to the offline pipeline that writes the
  packages and is not among the sources. Zig-zag encoding maps a signed 32-bit delta to
  an unsigned value, small magnitudes to small values: the delta shifted left by one,
  exclusive-or its sign spread over all bits.
\<close>

definition encodeZigZagValue :: "32 word \<Rightarrow> 32 word" where
  "encodeZigZagValue d = (push_bit 1 d) XOR (signed_drop_bit 31 d)"

text \<open>\<^verbatim>\<open>RoutingGraph::Point\<close>: latitude and longitude, two values of type \<^verbatim>\<open>int\<close>.\<close>

datatype Point = Point "32 word" "32 word"

text \<open>
  Modelled from the spec: the geometry decoder is not among the sources. A geometry is
  stored as a sequence of pairs of zig-zag coded deltas, each relative to the previous
  point and the first relative to zero; decoding walks the sequence and accumulates the
  absolute coordinates. Addition and subtraction are those of 32-bit integers.
\<close>

fun decode_points :: "Point \<Rightarrow> (32 word \<times> 32 word) list \<Rightarrow> Point list" where
  "decode_points prev [] = []"
| "decode_points (Point lat0 lon0) ((dlat, dlon) # rest) =
     (let p = Point (lat0 + decodeZigZagValue dlat) (lon0 + decodeZigZagValue dlon)
      in p # decode_points p rest)"

definition decodeGeometry :: "(32 word \<times> 32 word) list \<Rightarrow> Point list" where
  "decodeGeometry vals = decode_points (Point 0 0) vals"

fun encode_points :: "Point \<Rightarrow> Point list \<Rightarrow> (32 word \<times> 32 word) list" where
  "encode_points prev [] = []"
| "encode_points (Point lat0 lon0) (Point lat1 lon1 # rest) =
     (encodeZigZagValue (lat1 - lat0), encodeZigZagValue (lon1 - lon0))
       # encode_points (Point lat1 lon1) rest"

definition encodeGeometry :: "Point list \<Rightarrow> (32 word \<times> 32 word) list" where
  "encodeGeometry points = encode_points (Point 0 0) points"

subsection \<open>Shared node blocks, the block cache and NodePtr\<close>

text \<open>
  A \<^verbatim>\<open>std::shared_ptr<NodeBlock>\<close> is the address of a cell that holds the block and its
  use count. The heap is a list of cells indexed by address; a freed cell is \<open>None\<close> and
  its address is given out again by the next allocation. Copying a shared pointer adds
  one to the count of its cell, destroying one subtracts one and frees the cell when the
  count reaches zero.
\<close>

type_synonym addr = nat

record control_block =
  object :: NodeBlock
  use_count :: nat

type_synonym heap = "control_block option list"

definition heap_at :: "heap \<Rightarrow> addr \<Rightarrow> control_block option" where
  "heap_at h a = (if a < length h then h ! a else None)"

fun first_free :: "heap \<Rightarrow> addr" where
  "first_free [] = 0"
| "first_free (c # h) = (case c of None \<Rightarrow> 0 | Some x \<Rightarrow> Suc (first_free h))"

definition make_shared :: "NodeBlock \<Rightarrow> heap \<Rightarrow> addr \<times> heap" where
  "make_shared blk h =
     (let a = first_free h; c = Some \<lparr>object = blk, use_count = 1\<rparr>
      in (a, if a < length h then h[a := c] else h @ [c]))"

definition copy_shared :: "addr \<Rightarrow> heap \<Rightarrow> heap" where
  "copy_shared a h =
     (case heap_at h a of
        None \<Rightarrow> h
      | Some c \<Rightarrow> h[a := Some (c\<lparr>use_count := use_count c + 1\<rparr>)])"

definition release_shared :: "addr \<Rightarrow> heap \<Rightarrow> heap" where
  "release_shared a h =
     (case heap_at h a of
        None \<Rightarrow> h
      | Some c \<Rightarrow>
          if use_count c \<le> 1 then h[a := None]
          else h[a := Some (c\<lparr>use_count := use_count c - 1\<rparr>)])"

text \<open>
  The part of the graph object the node accessors touch: the heap, the node block cache
  \<^verbatim>\<open>_nodeBlockCache\<close> (most recently used entry first) and its capacity
  \<^verbatim>\<open>Settings::nodeBlockCacheSize\<close>.
\<close>

record RoutingGraph =
  heap :: heap
  nodeBlockCache :: "(BlockId \<times> addr) list"
  nodeBlockCacheSize :: nat

datatype graph_error = out_of_range | decode_error | null_pointer

definition RoutingGraph_new :: "nat \<Rightarrow> RoutingGraph" where
  "RoutingGraph_new capacity = \<lparr>heap = [], nodeBlockCache = [], nodeBlockCacheSize = capacity\<rparr>"

text \<open>
  Modelled from the spec: the bodies of \<^verbatim>\<open>RoutingGraph::loadNodeBlock\<close> and of the cache
  \<^verbatim>\<open>cache::lru_cache\<close> are not among the sources. On a hit the cache returns the shared
  handle it holds and promotes the entry; on a miss the block is decoded from the
  package's chunk (the parameter \<open>decodeNodeBlock\<close>, \<open>None\<close> for a decode failure), inserted,
  and the least recently used entry is evicted when the cache is over its capacity.
  Eviction destroys the cache's handle only. The result is a shared pointer of its own:
  it counts as one use of the cell.
\<close>

definition loadNodeBlock ::
  "(BlockId \<Rightarrow> NodeBlock option) \<Rightarrow> BlockId \<Rightarrow> RoutingGraph
     \<Rightarrow> (graph_error + addr) \<times> RoutingGraph" where
  "loadNodeBlock decodeNodeBlock b g =
     (case map_of (nodeBlockCache g) b of
        Some a \<Rightarrow>
          (Inr a, g\<lparr>heap := copy_shared a (heap g),
                    nodeBlockCache := (b, a) # remove1 (b, a) (nodeBlockCache g)\<rparr>)
      | None \<Rightarrow>
          (case decodeNodeBlock b of
             None \<Rightarrow> (Inl decode_error, g)
           | Some blk \<Rightarrow>
               (let (a, h1) = make_shared blk (heap g);
                    h2 = copy_shared a h1;
                    cache = (b, a) # nodeBlockCache g
                in if length cache > nodeBlockCacheSize g
                   then (Inr a, g\<lparr>heap := release_shared (snd (last cache)) h2,
                                   nodeBlockCache := butlast cache\<rparr>)
                   else (Inr a, g\<lparr>heap := h2, nodeBlockCache := cache\<rparr>))))"

text \<open>
  \<^verbatim>\<open>RoutingGraph::NodePtr\<close>: the raw pointer \<^verbatim>\<open>_node\<close> into the block's node array (the
  address of the block and an offset) and the shared pointer \<^verbatim>\<open>_nodeBlock\<close>.
\<close>

record NodePtr =
  NodePtr_node :: "addr \<times> nat"
  NodePtr_nodeBlock :: addr

text \<open>The conversion of an \<^verbatim>\<open>int\<close> to \<^verbatim>\<open>std::size_t\<close>, and \<^verbatim>\<open>std::vector::at\<close>.\<close>

definition size_t_of_int :: "int \<Rightarrow> nat" where
  "size_t_of_int i = nat (i mod 2 ^ 64)"

definition vector_at :: "'a list \<Rightarrow> nat \<Rightarrow> graph_error + nat" where
  "vector_at xs n = (if n < length xs then Inr n else Inl out_of_range)"

text \<open>
  The constructor \<^verbatim>\<open>NodePtr(const std::shared_ptr<NodeBlock>& nodeBlock, int elementIndex)\<close>:
  \<^verbatim>\<open>_node(&nodeBlock->nodes.at(elementIndex)), _nodeBlock(nodeBlock)\<close>. When \<^verbatim>\<open>at\<close> throws,
  no handle is made and no count changes.
\<close>

definition NodePtr_new :: "addr \<Rightarrow> int \<Rightarrow> heap \<Rightarrow> graph_error + NodePtr \<times> heap" where
  "NodePtr_new nodeBlock index h =
     (case heap_at h nodeBlock of
        None \<Rightarrow> Inl null_pointer
      | Some c \<Rightarrow>
          (case vector_at (nodes (object c)) (size_t_of_int index) of
             Inl e \<Rightarrow> Inl e
           | Inr i \<Rightarrow>
               Inr (\<lparr>NodePtr_node = (nodeBlock, i), NodePtr_nodeBlock = nodeBlock\<rparr>,
                    copy_shared nodeBlock h)))"

text \<open>The destructor of a handle releases its shared pointer.\<close>

definition NodePtr_delete :: "NodePtr \<Rightarrow> heap \<Rightarrow> heap" where
  "NodePtr_delete p h = release_shared (NodePtr_nodeBlock p) h"

text \<open>
  \<^verbatim>\<open>operator*\<close> and \<^verbatim>\<open>operator->\<close> read through the raw pointer: what is at that address of
  the heap now. A freed cell reads as \<open>None\<close>; a cell given out again reads as the block
  that lives there now. \<open>NodePtr_edges\<close> reads the node's edge range the same way.
\<close>

definition NodePtr_deref :: "NodePtr \<Rightarrow> heap \<Rightarrow> Node option" where
  "NodePtr_deref p h =
     (case heap_at h (fst (NodePtr_node p)) of
        None \<Rightarrow> None
      | Some c \<Rightarrow>
          if snd (NodePtr_node p) < length (nodes (object c))
          then Some (nodes (object c) ! snd (NodePtr_node p)) else None)"

definition NodePtr_edges :: "NodePtr \<Rightarrow> heap \<Rightarrow> Edge list option" where
  "NodePtr_edges p h =
     (case heap_at h (fst (NodePtr_node p)) of
        None \<Rightarrow> None
      | Some c \<Rightarrow>
          if snd (NodePtr_node p) < length (nodes (object c))
          then (let n = nodes (object c) ! snd (NodePtr_node p)
                in Some (take (lastEdge n - firstEdge n) (drop (firstEdge n) (edges (object c)))))
          else None)"

text \<open>
  Modelled from the spec: the body of \<^verbatim>\<open>RoutingGraph::getNode\<close> is not among the sources.
  It loads the node's block through the cache and returns a handle referencing the
  element at the node's index, made by the constructor above; the shared pointer that
  \<open>loadNodeBlock\<close> returned is a temporary and is destroyed on the way out, also when the
  constructor throws.
\<close>

definition getNode ::
  "(BlockId \<Rightarrow> NodeBlock option) \<Rightarrow> ElementId \<Rightarrow> RoutingGraph
     \<Rightarrow> (graph_error + NodePtr) \<times> RoutingGraph" where
  "getNode decodeNodeBlock nodeId g =
     (case loadNodeBlock decodeNodeBlock (blockId nodeId) g of
        (Inl e, g1) \<Rightarrow> (Inl e, g1)
      | (Inr a, g1) \<Rightarrow>
          (case NodePtr_new a (elementIndex nodeId) (heap g1) of
             Inl e \<Rightarrow> (Inl e, g1\<lparr>heap := release_shared a (heap g1)\<rparr>)
           | Inr (p, h2) \<Rightarrow> (Inr p, g1\<lparr>heap := release_shared a h2\<rparr>)))"

text \<open>
  What callers do with the graph: look a node up and keep the handle, or look a node up
  and drop the handle at once. Either may load a block and evict another.
\<close>

datatype client_op = GetAndHold ElementId | GetAndRelease ElementId

fun run_op :: "(BlockId \<Rightarrow> NodeBlock option) \<Rightarrow> client_op \<Rightarrow> RoutingGraph \<Rightarrow> RoutingGraph" where
  "run_op dec (GetAndHold nodeId) g = snd (getNode dec nodeId g)"
| "run_op dec (GetAndRelease nodeId) g =
     (case getNode dec nodeId g of
        (Inl e, g1) \<Rightarrow> g1
      | (Inr p, g1) \<Rightarrow> g1\<lparr>heap := NodePtr_delete p (heap g1)\<rparr>)"

definition run_ops ::
  "(BlockId \<Rightarrow> NodeBlock option) \<Rightarrow> client_op list \<Rightarrow> RoutingGraph \<Rightarrow> RoutingGraph" where
  "run_ops dec ops g = fold (run_op dec) ops g"

text \<open>
  The reference-count invariant used in the proofs. \<open>held a\<close> is the number of shared
  pointers to the cell at \<open>a\<close> that live outside the cache; \<open>refs\<close> adds the cache's own.
  Every cell that is referred to is allocated and its use count covers the references.
\<close>

definition refs :: "(BlockId \<times> addr) list \<Rightarrow> (addr \<Rightarrow> nat) \<Rightarrow> addr \<Rightarrow> nat" where
  "refs cache held a = count_list (map snd cache) a + held a"

definition refs_ok :: "heap \<Rightarrow> (BlockId \<times> addr) list \<Rightarrow> (addr \<Rightarrow> nat) \<Rightarrow> bool" where
  "refs_ok h cache held =
     (\<forall>a. 0 < refs cache held a \<longrightarrow>
        (\<exists>c. heap_at h a = Some c \<and> refs cache held a \<le> use_count c))"

definition obj_at :: "heap \<Rightarrow> addr \<Rightarrow> NodeBlock option" where
  "obj_at h a = map_option object (heap_at h a)"

text \<open>A package of two-node blocks and a graph with a cache of one block, for the examples.\<close>

definition nid :: "int \<Rightarrow> int \<Rightarrow> ElementId" where
  "nid b i = \<lparr>blockId = \<lparr>packageId = 0, blockIndex = b\<rparr>, elementIndex = i\<rparr>"

definition test_node :: "nat \<Rightarrow> Node" where
  "test_node w = \<lparr>firstEdge = 0, lastEdge = 0,
     nodeData = \<lparr>geometryId = nid 0 0, geometryReversed = False, nameId = nid 0 0,
                 weight = w, travelMode = 1\<rparr>\<rparr>"

definition test_block :: "int \<Rightarrow> NodeBlock" where
  "test_block b = \<lparr>nodes = [test_node (nat b), test_node (nat b + 100)], edges = []\<rparr>"

definition test_decode :: "BlockId \<Rightarrow> NodeBlock option" where
  "test_decode b =
     (if packageId b = 0 \<and> 0 \<le> blockIndex b then Some (test_block (blockIndex b)) else None)"

definition test_handle :: NodePtr where
  "test_handle = \<lparr>NodePtr_node = (0, 1), NodePtr_nodeBlock = 0\<rparr>"

definition test_graph :: RoutingGraph where
  "test_graph =
     \<lparr>heap = [Some \<lparr>object = test_block 0, use_count = 2\<rparr>],
      nodeBlockCache = [(\<lparr>packageId = 0, blockIndex = 0\<rparr>, 0)],
      nodeBlockCacheSize = 1\<rparr>"

definition test_later :: "client_op list" where
  "test_later = [GetAndRelease (nid 1 0), GetAndHold (nid 2 0), GetAndRelease (nid 3 1)]"

section \<open>The OSM XML parser: the root element\<close>

text \<open>
  Source: \<^verbatim>\<open>XMLParser::start_element\<close> (xml_input_format.hpp). A C string is a
  \<^typ>\<open>string\<close> and \<^verbatim>\<open>strcmp\<close> is equality; the attribute array is the list of its
  name and value pairs. \<^verbatim>\<open>osmium::io::Header\<close> is declared in another header: it holds
  string options, and reading an option that was never set gives the empty string.
\<close>

datatype "context" = root | top | node | way | relation | changeset
  | ignored_node | ignored_way | ignored_relation | ignored_changeset | in_object

record Header =
  options :: "string \<rightharpoonup> string"
  has_multiple_object_versions :: bool

definition Header_set :: "string \<Rightarrow> string \<Rightarrow> Header \<Rightarrow> Header" where
  "Header_set key val h = h\<lparr>options := (options h)(key \<mapsto> val)\<rparr>"

definition Header_get :: "Header \<Rightarrow> string \<Rightarrow> string" where
  "Header_get h key = (case options h key of None \<Rightarrow> '''' | Some val \<Rightarrow> val)"

text \<open>The exceptions of the parser; a \<open>format_version_error\<close> carries its message and the version.\<close>

datatype parser_exception =
    format_version_error (what: string) (version: string)
  | xml_error string
  | ParserIsDone

definition format_version_error_missing :: parser_exception where
  "format_version_error_missing =
     format_version_error
       ''Can not read file without version (missing version attribute on osm element).'' ''''"

definition format_version_error_of :: "string \<Rightarrow> parser_exception" where
  "format_version_error_of v = format_version_error (''Can not read file with version '' @ v) v"

record XMLParser =
  m_context :: "context"
  m_last_context :: "context"
  m_in_delete_section :: bool
  m_header :: Header
  m_header_is_done :: bool

definition XMLParser_init :: XMLParser where
  "XMLParser_init =
     \<lparr>m_context = root, m_last_context = root, m_in_delete_section = False,
      m_header = \<lparr>options = Map.empty, has_multiple_object_versions = False\<rparr>,
      m_header_is_done = False\<rparr>"

text \<open>The loop over the attributes of the root element.\<close>

fun root_attributes :: "(string \<times> string) list \<Rightarrow> Header \<Rightarrow> parser_exception + Header" where
  "root_attributes [] h = Inr h"
| "root_attributes ((name, val) # attrs) h =
     (if name = ''version''
      then (let h' = Header_set ''version'' val h
            in if val \<noteq> ''0.6'' then Inl (format_version_error_of val)
               else root_attributes attrs h')
      else if name = ''generator''
      then root_attributes attrs (Header_set ''generator'' val h)
      else root_attributes attrs h)"

text \<open>
  \<open>start_element\<close> in the context \<open>root\<close>. The other cases of the switch build OSM objects
  in buffers; they are the parameter \<open>start_element_below_root\<close>.
\<close>

type_synonym element_handler =
  "string \<Rightarrow> (string \<times> string) list \<Rightarrow> XMLParser \<Rightarrow> parser_exception + XMLParser"

definition start_element :: "element_handler \<Rightarrow> element_handler" where
  "start_element start_element_below_root element attrs p =
     (case m_context p of
        root \<Rightarrow>
          (if element = ''osm'' \<or> element = ''osmChange''
           then (let h = (if element = ''osmChange''
                          then (m_header p)\<lparr>has_multiple_object_versions := True\<rparr>
                          else m_header p)
                 in case root_attributes attrs h of
                      Inl e \<Rightarrow> Inl e
                    | Inr h' \<Rightarrow>
                        if Header_get h' ''version'' = ''''
                        then Inl format_version_error_missing
                        else Inr (p\<lparr>m_header := h', m_context := top\<rparr>))
           else Inl (xml_error (''Unknown top-level element: '' @ element)))
      | _ \<Rightarrow> start_element_below_root element attrs p)"

text \<open>
  The Expat parser calls the handlers in document order; an exception thrown by a handler
  ends the parse (\<^verbatim>\<open>XMLParser::operator()\<close> rethrows it).
\<close>

datatype xml_event = StartElement string "(string \<times> string) list" | EndElement string

fun parse_events ::
  "element_handler \<Rightarrow> (string \<Rightarrow> XMLParser \<Rightarrow> parser_exception + XMLParser)
     \<Rightarrow> xml_event list \<Rightarrow> XMLParser \<Rightarrow> parser_exception + XMLParser" where
  "parse_events below end_element [] p = Inr p"
| "parse_events below end_element (StartElement element attrs # events) p =
     (case start_element below element attrs p of
        Inl e \<Rightarrow> Inl e
      | Inr p' \<Rightarrow> parse_events below end_element events p')"
| "parse_events below end_element (EndElement element # events) p =
     (case end_element element p of
        Inl e \<Rightarrow> Inl e
      | Inr p' \<Rightarrow> parse_events below end_element events p')"

text \<open>Root elements and handlers for the examples.\<close>

definition osm_attributes_05 :: "(string \<times> string) list" where
  "osm_attributes_05 = [(''version'', ''0.5''), (''generator'', ''JOSM'')]"

definition osm_attributes_none :: "(string \<times> string) list" where
  "osm_attributes_none = [(''generator'', ''JOSM'')]"

definition no_handler :: element_handler where
  "no_handler element attrs p = Inr p"

definition no_end_handler :: "string \<Rightarrow> XMLParser \<Rightarrow> parser_exception + XMLParser" where
  "no_end_handler element p = Inr p"

section \<open>Properties of package discovery and import\<close>

lemma find_char_None: "find_char s c = None \<longleftrightarrow> c \<notin> set s"
  by (induction s) auto

lemma find_char_Some:
  "find_char s c = Some pos \<Longrightarrow> pos < length s \<and> s ! pos = c \<and> c \<notin> set (take pos s)"
  by (induction s arbitrary: pos) (auto split: if_splits)

lemma find_char_prefix_no_char:
  "find_char s c = Some pos \<Longrightarrow> find_char (substr s 0 pos) c = None"
  by (simp add: find_char_None substr_def find_char_Some)

lemma import_calls_write_log [simp]: "import_calls (write_log l m st) = import_calls st"
  by (simp add: write_log_def)

lemma log_write_log [simp]: "log (write_log l m st) = log st @ [(l, m)]"
  by (simp add: write_log_def)

lemma import_calls_try_import:
  "import_calls (try_import imp f st) = import_calls st @ [f @ ''.nutigraph'']"
  by (simp add: try_import_def Let_def split: import_outcome.splits)

lemma import_calls_load_one:
  "import_calls (load_one imp all f st) =
     import_calls st @ (if is_skipped all f then [] else [f @ ''.nutigraph''])"
  by (simp add: load_one_def is_skipped_def import_calls_try_import Let_def split: option.splits)

lemma import_calls_fold:
  "import_calls (fold (load_one imp all) xs st) =
     import_calls st @ map (\<lambda>f. f @ ''.nutigraph'') (filter (\<lambda>f. \<not> is_skipped all f) xs)"
  by (induction xs arbitrary: st) (simp_all add: import_calls_load_one)

text \<open>
  The calls to \<open>import\<close> do not depend on what any call returns or throws: every name
  that is not skipped is imported once, in the order of the set.
\<close>

lemma import_calls_NutiViaRoutePlugin:
  "import_calls (NutiViaRoutePlugin imp base_path) =
     map (\<lambda>f. f @ ''.nutigraph'')
       (filter (\<lambda>f. \<not> is_skipped (scan_directory base_path []) f)
          (scan_directory base_path []))"
  by (simp add: NutiViaRoutePlugin_def load_all_def import_calls_fold)

lemma log_try_import_mono: "set (log st) \<subseteq> set (log (try_import imp f st))"
  by (auto simp add: try_import_def Let_def split: import_outcome.splits)

lemma log_load_one_mono: "set (log st) \<subseteq> set (log (load_one imp all f st))"
  using log_try_import_mono [of st imp f]
  by (auto simp add: load_one_def Let_def split: option.splits)

lemma log_fold_mono: "set (log st) \<subseteq> set (log (fold (load_one imp all) xs st))"
proof (induction xs arbitrary: st)
  case Nil
  show ?case by simp
next
  case (Cons x xs)
  have "set (log st) \<subseteq> set (log (load_one imp all x st))"
    by (rule log_load_one_mono)
  also have "\<dots> \<subseteq> set (log (fold (load_one imp all) xs (load_one imp all x st)))"
    by (rule Cons.IH)
  finally show ?case by simp
qed

lemma log_load_one_skip:
  assumes "find_char f CHR ''-'' = Some pos" and "substr f 0 pos \<in> set all"
  shows "(logINFO, ''Skipping '' @ (f @ ''.nutigraph'') @ '' as ''
            @ (substr f 0 pos @ ''.nutigraph'') @ '' exists'') \<in> set (log (load_one imp all f st))"
  using assms by (simp add: load_one_def)

lemma log_load_one_threw:
  assumes "\<not> is_skipped all f" and "imp (f @ ''.nutigraph'') = Threw msg"
  shows "(logWARNING, ''Failed to load '' @ (f @ ''.nutigraph'') @ '': '' @ msg)
           \<in> set (log (load_one imp all f st))"
  using assms
  by (auto simp add: load_one_def is_skipped_def try_import_def Let_def split: option.splits)

lemma log_fold_member:
  assumes "f \<in> set xs" and "\<And>st. e \<in> set (log (load_one imp all f st))"
  shows "e \<in> set (log (fold (load_one imp all) xs st))"
  using assms(1)
proof (induction xs arbitrary: st)
  case Nil
  then show ?case by simp
next
  case (Cons x xs)
  show ?case
  proof (cases "x = f")
    case True
    have "e \<in> set (log (load_one imp all f st))" by (rule assms(2))
    then show ?thesis
      using log_fold_mono [of "load_one imp all f st" imp all xs] True by auto
  next
    case False
    with Cons.prems have "f \<in> set xs" by simp
    then show ?thesis using Cons.IH by simp
  qed
qed

text \<open>A failure that \<open>import\<close> signals by throwing is logged as a warning.\<close>

lemma thrown_failure_is_logged:
  assumes "f \<in> set (scan_directory base_path [])"
    and "\<not> is_skipped (scan_directory base_path []) f"
    and "imp (f @ ''.nutigraph'') = Threw msg"
  shows "(logWARNING, ''Failed to load '' @ (f @ ''.nutigraph'') @ '': '' @ msg)
           \<in> set (log (NutiViaRoutePlugin imp base_path))"
  unfolding NutiViaRoutePlugin_def load_all_def
  by (rule log_fold_member [OF assms(1)])
     (rule log_load_one_threw [where imp = imp and f = f, OF assms(2,3)])

lemma scan_region:
  "scan_directory region_directory [] = [''data/region'', ''data/region-sub'']"
  by (simp add: region_directory_def has_nutigraph_suffix_def rfind_def size_t_sub_def
      size_t_of_pos_def npos_def set_insert_def substr_def)

lemma scan_ab: "scan_directory ab_directory [] = [''data/a'', ''data/b'']"
  by (simp add: ab_directory_def has_nutigraph_suffix_def rfind_def size_t_sub_def
      size_t_of_pos_def npos_def set_insert_def substr_def)

text \<open>
  Claim C1, as amended. The names the rule works on are the discovered path strings:
  the path of a package file as the directory listing gives it, base path included,
  with the extension cut off. For every discovered path string that contains a dash and
  whose part before its first dash is also a discovered path string, the dashed one (the
  child) is never passed to \<open>import\<close> and a line "Skipping child as parent exists" is
  logged, while the part before the dash (the parent) is passed to \<open>import\<close>.
\<close>

theorem child_skipped_parent_imported:
  assumes "child \<in> set (scan_directory base_path [])"
    and "find_char child CHR ''-'' = Some pos"
    and "substr child 0 pos \<in> set (scan_directory base_path [])"
  shows "child @ ''.nutigraph'' \<notin> set (import_calls (NutiViaRoutePlugin imp base_path))
       \<and> (logINFO, ''Skipping '' @ (child @ ''.nutigraph'') @ '' as ''
            @ (substr child 0 pos @ ''.nutigraph'') @ '' exists'')
           \<in> set (log (NutiViaRoutePlugin imp base_path))
       \<and> substr child 0 pos @ ''.nutigraph''
           \<in> set (import_calls (NutiViaRoutePlugin imp base_path))"
proof -
  let ?all = "scan_directory base_path []"
  have skipped: "is_skipped ?all child"
    using assms by (simp add: is_skipped_def)
  have parent: "\<not> is_skipped ?all (substr child 0 pos)"
    using find_char_prefix_no_char [OF assms(2)] by (simp add: is_skipped_def)
  note calls = import_calls_NutiViaRoutePlugin [of imp base_path]
  have a: "child @ ''.nutigraph'' \<notin> set (import_calls (NutiViaRoutePlugin imp base_path))"
    using skipped by (auto simp add: calls)
  have b: "(logINFO, ''Skipping '' @ (child @ ''.nutigraph'') @ '' as ''
            @ (substr child 0 pos @ ''.nutigraph'') @ '' exists'')
           \<in> set (log (NutiViaRoutePlugin imp base_path))"
    unfolding NutiViaRoutePlugin_def load_all_def
    by (rule log_fold_member [OF assms(1)]) (rule log_load_one_skip [OF assms(2,3)])
  have c: "substr child 0 pos @ ''.nutigraph''
           \<in> set (import_calls (NutiViaRoutePlugin imp base_path))"
    using parent assms(3) by (auto simp add: calls)
  from a b c show ?thesis by blast
qed

text \<open>
  The theorem at the directory data that holds region.nutigraph and
  region-sub.nutigraph: data/region-sub is skipped and data/region is imported.
\<close>

theorem child_skipped_parent_imported_witness:
  "''data/region-sub'' \<in> set (scan_directory region_directory [])
   \<and> find_char ''data/region-sub'' CHR ''-'' = Some 11
   \<and> substr ''data/region-sub'' 0 11 \<in> set (scan_directory region_directory [])
   \<and> ''data/region-sub.nutigraph''
        \<notin> set (import_calls (NutiViaRoutePlugin import_succeeds region_directory))
   \<and> (logINFO, ''Skipping data/region-sub.nutigraph as data/region.nutigraph exists'')
        \<in> set (log (NutiViaRoutePlugin import_succeeds region_directory))
   \<and> ''data/region.nutigraph''
        \<in> set (import_calls (NutiViaRoutePlugin import_succeeds region_directory))"
proof -
  have h1: "''data/region-sub'' \<in> set (scan_directory region_directory [])"
    by (simp add: scan_region)
  have h2: "find_char ''data/region-sub'' CHR ''-'' = Some 11"
    by simp
  have h3: "substr ''data/region-sub'' 0 11 \<in> set (scan_directory region_directory [])"
    by (simp add: scan_region substr_def)
  show ?thesis
    using h1 h2 h3 child_skipped_parent_imported [OF h1 h2 h3, of import_succeeds]
    by (simp add: substr_def)
qed

text \<open>
  Claim C1 as stated fails: with the packages region and region-sub in the directory
  data, the constructor loads region and logs a skip for region-sub, not the other way
  round.
\<close>

theorem parent_skipped_counterexample:
  "NutiViaRoutePlugin import_succeeds region_directory =
     \<lparr>log = [(logINFO, ''Loading data/region.nutigraph''),
             (logINFO,
              ''Skipping data/region-sub.nutigraph as data/region.nutigraph exists'')],
      import_calls = [''data/region.nutigraph'']\<rparr>"
  by (simp add: NutiViaRoutePlugin_def scan_region load_all_def load_one_def try_import_def
    write_log_def import_succeeds_def substr_def)

text \<open>
  The first dash is searched in the whole path string. In a directory my-data the first
  dash of every path is the one of the base path, the part before it is no discovered
  path, and nothing is skipped: both packages are imported.
\<close>

lemma scan_dashed:
  "scan_directory dashed_directory [] = [''my-data/region'', ''my-data/region-sub'']"
  by (simp add: dashed_directory_def has_nutigraph_suffix_def rfind_def size_t_sub_def
      size_t_of_pos_def npos_def set_insert_def substr_def)

lemma dash_in_base_path_nothing_skipped:
  "NutiViaRoutePlugin import_succeeds dashed_directory =
     \<lparr>log = [(logINFO, ''Loading my-data/region.nutigraph''),
             (logINFO, ''Loading my-data/region-sub.nutigraph'')],
      import_calls = [''my-data/region.nutigraph'', ''my-data/region-sub.nutigraph'']\<rparr>"
  by (simp add: NutiViaRoutePlugin_def scan_dashed load_all_def load_one_def try_import_def
    write_log_def import_succeeds_def substr_def)

text \<open>
  Claim C6 at a package whose import fails by returning false (an unsupported version,
  say): the other package is still imported, but the log holds no line about the failure
  of a.nutigraph, only the two "Loading" lines.
\<close>

theorem false_return_not_logged:
  "NutiViaRoutePlugin import_rejects_a ab_directory =
     \<lparr>log = [(logINFO, ''Loading data/a.nutigraph''),
             (logINFO, ''Loading data/b.nutigraph'')],
      import_calls = [''data/a.nutigraph'', ''data/b.nutigraph'']\<rparr>"
  by (simp add: NutiViaRoutePlugin_def scan_ab load_all_def load_one_def try_import_def
    write_log_def import_rejects_a_def)

text \<open>The same directory when the import of a.nutigraph throws: the failure is logged.\<close>

lemma thrown_failure_example:
  "NutiViaRoutePlugin import_throws_a ab_directory =
     \<lparr>log = [(logINFO, ''Loading data/a.nutigraph''),
             (logWARNING, ''Failed to load data/a.nutigraph: bad version''),
             (logINFO, ''Loading data/b.nutigraph'')],
      import_calls = [''data/a.nutigraph'', ''data/b.nutigraph'']\<rparr>"
  by (simp add: NutiViaRoutePlugin_def scan_ab load_all_def load_one_def try_import_def
    write_log_def import_throws_a_def)

section \<open>Properties of request handling\<close>

text \<open>
  The loop hands the same query to the finder on every pass; it stops after the first
  pass when the finder throws or reports failure.
\<close>

lemma queries_route_legs:
  "snd (route_legs env coords is results queries) =
     queries @ replicate (if leg_succeeds env (leg_query env coords) then length is
                          else min 1 (length is)) (leg_query env coords)"
proof (induction "is" arbitrary: results queries)
  case Nil
  show ?case by simp
next
  case (Cons i rest)
  show ?case
  proof (cases "finder_find env (leg_query env coords)")
    case (FindThrew msg)
    then show ?thesis
      by (simp add: leg_query_def leg_succeeds_def Let_def)
  next
    case (FindReturned result)
    show ?thesis
    proof (cases "getStatus env result = FAILED")
      case True
      with FindReturned show ?thesis
        by (simp add: leg_query_def leg_succeeds_def Let_def)
    next
      case False
      with FindReturned have ok: "leg_succeeds env (leg_query env coords)"
        by (simp add: leg_succeeds_def)
      have "snd (route_legs env coords (i # rest) results queries) =
            snd (route_legs env coords rest (results @ [result])
                   (queries @ [leg_query env coords]))"
        using FindReturned False by (simp add: leg_query_def Let_def)
      also have "\<dots> = (queries @ [leg_query env coords])
                    @ replicate (length rest) (leg_query env coords)"
        using ok by (simp add: Cons.IH)
      finally show ?thesis using ok by (simp add: replicate_app_Cons_same)
    qed
  qed
qed

lemma int_of_size_t_small: "n < 2 ^ 31 \<Longrightarrow> int_of_size_t n = int n"
  by (simp add: int_of_size_t_def Let_def)

lemma queries_HandleRequest:
  assumes "2 \<le> length (coordinates rp)"
    and "\<not> (mx > 0 \<and> int_of_size_t (length (coordinates rp)) > mx)"
  shows "snd (snd (HandleRequest env mx rp json)) =
     replicate (if leg_succeeds env (leg_query env (coordinates rp))
                then length (coordinates rp) - 1 else 1) (leg_query env (coordinates rp))"
proof -
  let ?n = "length (coordinates rp)"
  obtain r qs where rl: "route_legs env (coordinates rp) [1..<?n] [] [] = (r, qs)"
    by (cases "route_legs env (coordinates rp) [1..<?n] [] []")
  have "qs = snd (route_legs env (coordinates rp) [1..<?n] [] [])"
    using rl by simp
  also have "\<dots> = replicate (if leg_succeeds env (leg_query env (coordinates rp))
                then ?n - 1 else 1) (leg_query env (coordinates rp))"
    using assms(1) by (auto simp add: queries_route_legs min_def)
  finally have qs: "qs = replicate (if leg_succeeds env (leg_query env (coordinates rp))
                then ?n - 1 else 1) (leg_query env (coordinates rp))" .
  have "snd (snd (HandleRequest env mx rp json)) = qs"
    using assms rl
    by (cases r) (auto simp add: HandleRequest_def Let_def split: prod.splits)
  with qs show ?thesis by simp
qed

lemma test_request_length: "length (coordinates test_request) = 3"
  by (simp add: test_request_def test_coordinates_def)

lemma test_leg_succeeds: "leg_succeeds test_env q"
  by (simp add: leg_succeeds_def test_env_def)

text \<open>
  Claim C8. For a request with at least two coordinates, every routing query that
  HandleRequest hands to the finder is the query from \<open>coordinates[0]\<close> to
  \<open>coordinates[1]\<close>, whatever the later coordinates are; and when the request passes the
  limit on the number of locations and that query succeeds, the queries are exactly
  \<open>n - 1\<close> copies of it.
\<close>

theorem all_legs_use_first_two_coordinates:
  assumes "2 \<le> length (coordinates rp)"
  shows "(\<forall>q \<in> set (snd (snd (HandleRequest env mx rp json))).
            q = RoutingQuery (toWGSPos (COORDINATE_PRECISION env) (coordinates rp ! 0))
                             (toWGSPos (COORDINATE_PRECISION env) (coordinates rp ! 1)))
       \<and> (\<not> (mx > 0 \<and> int_of_size_t (length (coordinates rp)) > mx)
            \<and> leg_succeeds env (leg_query env (coordinates rp))
          \<longrightarrow> snd (snd (HandleRequest env mx rp json)) =
                replicate (length (coordinates rp) - 1)
                  (RoutingQuery (toWGSPos (COORDINATE_PRECISION env) (coordinates rp ! 0))
                                (toWGSPos (COORDINATE_PRECISION env) (coordinates rp ! 1))))"
proof (cases "mx > 0 \<and> int_of_size_t (length (coordinates rp)) > mx")
  case True
  then have "snd (snd (HandleRequest env mx rp json)) = []"
    by (simp add: HandleRequest_def Let_def)
  with True show ?thesis by simp
next
  case False
  from queries_HandleRequest [OF assms False, of env json]
  show ?thesis using False by (auto simp add: leg_query_def)
qed

text \<open>
  The theorem at a request of three coordinates with no limit: both legs go from the
  first coordinate to the second, the third is never used.
\<close>

theorem all_legs_use_first_two_coordinates_witness:
  "2 \<le> length (coordinates test_request)
   \<and> snd (snd (HandleRequest test_env 0 test_request Map.empty))
       = replicate 2 (RoutingQuery (1, 2) (3, 4))"
proof -
  have h: "2 \<le> length (coordinates test_request)"
    by (simp add: test_request_length)
  have c: "\<not> ((0::int) > 0 \<and> int_of_size_t (length (coordinates test_request)) > 0)
       \<and> leg_succeeds test_env (leg_query test_env (coordinates test_request))"
    by (simp add: test_leg_succeeds)
  have "snd (snd (HandleRequest test_env 0 test_request Map.empty)) =
          replicate (length (coordinates test_request) - 1)
            (RoutingQuery
               (toWGSPos (COORDINATE_PRECISION test_env) (coordinates test_request ! 0))
               (toWGSPos (COORDINATE_PRECISION test_env) (coordinates test_request ! 1)))"
    using conjunct2 [OF all_legs_use_first_two_coordinates [OF h, of test_env 0 Map.empty]] c
    by (rule mp)
  moreover have "RoutingQuery
               (toWGSPos (COORDINATE_PRECISION test_env) (coordinates test_request ! 0))
               (toWGSPos (COORDINATE_PRECISION test_env) (coordinates test_request ! 1))
             = RoutingQuery (1, 2) (3, 4)"
    by (simp add: test_request_def test_coordinates_def test_env_def toWGSPos_def)
  moreover have "length (coordinates test_request) - 1 = 2"
    by (simp add: test_request_length)
  ultimately have "snd (snd (HandleRequest test_env 0 test_request Map.empty)) =
          replicate 2 (RoutingQuery (1, 2) (3, 4))"
    by (simp only:)
  with h show ?thesis by (rule conjI)
qed

text \<open>
  Claim C9. For a request whose number of coordinates fits the type \<open>int\<close> (fewer than
  \<open>2^31\<close>): when there are fewer than two coordinates, or the limit is positive and the
  number of coordinates exceeds it, HandleRequest returns the status Error, hands no
  query to the finder and changes the JSON object at the key status_message only;
  otherwise it goes on to routing and hands at least one query to the finder.
\<close>

theorem request_validation:
  assumes "length (coordinates rp) < 2 ^ 31"
  shows "(length (coordinates rp) < 2
            \<or> (mx > 0 \<and> int (length (coordinates rp)) > mx)
          \<longrightarrow> (\<exists>message. HandleRequest env mx rp json =
                  (Error, json(''status_message'' \<mapsto> String message), [])))
       \<and> (\<not> (length (coordinates rp) < 2
               \<or> (mx > 0 \<and> int (length (coordinates rp)) > mx))
          \<longrightarrow> snd (snd (HandleRequest env mx rp json)) \<noteq> [])"
proof -
  have cast: "int_of_size_t (length (coordinates rp)) = int (length (coordinates rp))"
    using assms by (rule int_of_size_t_small)
  have a: "length (coordinates rp) < 2 \<or> (mx > 0 \<and> int (length (coordinates rp)) > mx)
          \<longrightarrow> (\<exists>message. HandleRequest env mx rp json =
                  (Error, json(''status_message'' \<mapsto> String message), []))"
    by (auto simp add: HandleRequest_def Let_def cast)
  have b: "\<not> (length (coordinates rp) < 2 \<or> (mx > 0 \<and> int (length (coordinates rp)) > mx))
          \<longrightarrow> snd (snd (HandleRequest env mx rp json)) \<noteq> []"
  proof
    assume h: "\<not> (length (coordinates rp) < 2 \<or> (mx > 0 \<and> int (length (coordinates rp)) > mx))"
    then have two: "2 \<le> length (coordinates rp)" by simp
    from h cast have lim: "\<not> (mx > 0 \<and> int_of_size_t (length (coordinates rp)) > mx)" by simp
    show "snd (snd (HandleRequest env mx rp json)) \<noteq> []"
      using two by (simp add: queries_HandleRequest [OF two lim])
  qed
  from a b show ?thesis by blast
qed

text \<open>
  The theorem at the request of three coordinates: rejected under a limit of two, with
  the message of the source; routed under a limit of three.
\<close>

theorem request_validation_witness:
  "length (coordinates test_request) < 2 ^ 31
   \<and> HandleRequest test_env 2 test_request Map.empty =
       (Error, [''status_message'' \<mapsto>
          String ''Number of entries 3 is higher than current maximum (2)''], [])
   \<and> snd (snd (HandleRequest test_env 3 test_request Map.empty)) \<noteq> []"
proof -
  have h: "length (coordinates test_request) < 2 ^ 31"
    by (simp add: test_request_length)
  have m: "HandleRequest test_env 2 test_request Map.empty =
       (Error, [''status_message'' \<mapsto>
          String ''Number of entries 3 is higher than current maximum (2)''], [])"
    by (simp add: HandleRequest_def test_request_length int_of_size_t_def to_string_def
        decimal.simps)
  from request_validation [OF h, of 3 test_env Map.empty]
  have c: "snd (snd (HandleRequest test_env 3 test_request Map.empty)) \<noteq> []"
    by (simp add: test_request_length)
  from h m c show ?thesis by blast
qed

text \<open>A request with no coordinates is rejected as invalid.\<close>

lemma empty_request_rejected:
  "HandleRequest test_env 0 \<lparr>coordinates = [], zoom_level = 0\<rparr> Map.empty =
     (Error, [''status_message'' \<mapsto> String ''Invalid coordinates''], [])"
  by (simp add: HandleRequest_def int_of_size_t_def)

section \<open>Properties of the search queue\<close>

lemma foldl_best_mem:
  "foldl (\<lambda>best x. if SearchNode_less best x then x else best) b xs \<in> set (b # xs)"
  by (induction xs arbitrary: b) auto

lemma foldl_best_le:
  "distance (foldl (\<lambda>best x. if SearchNode_less best x then x else best) b xs) \<le> distance b"
proof (induction xs arbitrary: b)
  case Nil
  show ?case by simp
next
  case (Cons x xs)
  show ?case
    using Cons.IH [of x] Cons.IH [of b] by (auto simp add: SearchNode_less_def)
qed

lemma foldl_best_min:
  "y \<in> set xs \<Longrightarrow>
     distance (foldl (\<lambda>best x. if SearchNode_less best x then x else best) b xs) \<le> distance y"
proof (induction xs arbitrary: b)
  case Nil
  then show ?case by simp
next
  case (Cons x xs)
  show ?case
  proof (cases "y = x")
    case True
    show ?thesis
      using foldl_best_le [of x xs] foldl_best_le [of b xs] True
      by (auto simp add: SearchNode_less_def)
  next
    case False
    with Cons.prems have "y \<in> set xs" by simp
    then show ?thesis using Cons.IH by simp
  qed
qed

lemma pq_top_mem: "q \<noteq> [] \<Longrightarrow> pq_top q \<in> set q"
  using foldl_best_mem [of "hd q" "tl q"] by (cases q) (simp_all add: pq_top_def)

lemma pq_top_min: "y \<in> set q \<Longrightarrow> distance (pq_top q) \<le> distance y"
proof (cases q)
  case Nil
  assume "y \<in> set q"
  with Nil show ?thesis by simp
next
  case (Cons b xs)
  assume "y \<in> set q"
  with Cons have "y = b \<or> y \<in> set xs" by simp
  then show ?thesis
    using foldl_best_le [of b xs] foldl_best_min [of y xs b] Cons
    by (auto simp add: pq_top_def)
qed

lemma length_pq_pop:
  assumes "q \<noteq> []"
  shows "Suc (length (pq_pop q)) = length q"
proof -
  have "pq_top q \<in> set q" using assms by (rule pq_top_mem)
  moreover have "0 < length q" using assms by simp
  ultimately show ?thesis by (simp add: pq_pop_def length_remove1)
qed

lemma mset_pq_drain: "length q \<le> n \<Longrightarrow> mset (pq_drain n q) = mset q"
proof (induction n arbitrary: q)
  case 0
  then show ?case by simp
next
  case (Suc n)
  show ?case
  proof (cases "q = []")
    case True
    then show ?thesis by simp
  next
    case False
    from length_pq_pop [OF False] Suc.prems have "length (pq_pop q) \<le> n" by simp
    then have "mset (pq_drain n (pq_pop q)) = mset (pq_pop q)" by (rule Suc.IH)
    then show ?thesis
      using False pq_top_mem [OF False] by (simp add: pq_pop_def)
  qed
qed

lemma sorted_pq_drain: "length q \<le> n \<Longrightarrow> sorted (map distance (pq_drain n q))"
proof (induction n arbitrary: q)
  case 0
  then show ?case by simp
next
  case (Suc n)
  show ?case
  proof (cases "q = []")
    case True
    then show ?thesis by simp
  next
    case False
    from length_pq_pop [OF False] Suc.prems have len: "length (pq_pop q) \<le> n" by simp
    have "set (pq_drain n (pq_pop q)) = set (pq_pop q)"
      using mset_pq_drain [OF len] by (metis set_mset_mset)
    also have "\<dots> \<subseteq> set q"
      by (simp add: pq_pop_def set_remove1_subset)
    finally have "\<forall>y \<in> set (pq_drain n (pq_pop q)). distance (pq_top q) \<le> distance y"
      using pq_top_min by blast
    then show ?thesis
      using False Suc.IH [OF len] by simp
  qed
qed

text \<open>
  Claim C4. For all search nodes \<open>a\<close> and \<open>b\<close>, \<open>a < b\<close> holds exactly when the distance of
  \<open>a\<close> is greater than that of \<open>b\<close>. So the top of a non-empty queue, a greatest element
  under this order, is an entry of the queue with the smallest distance, and popping
  the queue until it is empty yields all its entries in ascending order of distance.
\<close>

theorem search_queue_ascending:
  "SearchNode_less a b = (distance a > distance b)
   \<and> (q \<noteq> [] \<longrightarrow> pq_top q \<in> set q \<and> (\<forall>y \<in> set q. distance (pq_top q) \<le> distance y))
   \<and> sorted (map distance (pq_drain (length q) q))
   \<and> mset (pq_drain (length q) q) = mset q"
  using pq_top_mem [of q] pq_top_min [of _ q] sorted_pq_drain [of q "length q"]
    mset_pq_drain [of q "length q"]
  by (simp add: SearchNode_less_def)

text \<open>The theorem at a queue with the distances 5, 2 and 9: they leave as 2, 5, 9.\<close>

theorem search_queue_ascending_witness:
  "test_queue \<noteq> []
   \<and> pq_top test_queue \<in> set test_queue
   \<and> distance (pq_top test_queue) = 2
   \<and> sorted (map distance (pq_drain (length test_queue) test_queue))
   \<and> map distance (pq_drain (length test_queue) test_queue) = [2, 5, 9]"
proof -
  have h: "test_queue \<noteq> []"
    by (simp add: test_queue_def)
  have t: "distance (pq_top test_queue) = 2"
    by (simp add: test_queue_def pq_top_def SearchNode_less_def)
  have d: "map distance (pq_drain (length test_queue) test_queue) = [2, 5, 9]"
    by (simp add: test_queue_def pq_top_def pq_pop_def SearchNode_less_def numeral_3_eq_3)
  from search_queue_ascending [of "pq_top test_queue" "pq_top test_queue" test_queue] h
  have "pq_top test_queue \<in> set test_queue
        \<and> sorted (map distance (pq_drain (length test_queue) test_queue))"
    by blast
  with h t d show ?thesis by blast
qed

section \<open>Properties of the zig-zag and delta coding\<close>

lemma and1: "(w :: 32 word) AND 1 = (if bit w 0 then 1 else 0)"
  by (simp add: and_one_eq mod_2_eq_odd bit_0)

lemma sdb31: "signed_drop_bit 31 (d :: 32 word) = (if bit d 31 then - 1 else 0)"
  by (rule bit_word_eqI) (auto simp add: bit_signed_drop_bit_iff not_le)

lemma bit_shl1: "bit (push_bit 1 (d :: 32 word)) m = (1 \<le> m \<and> m < 32 \<and> bit d (m - 1))"
  by (auto simp only: bit_push_bit_iff possible_bit_word len_num1 len_bit0 Type_Length.len_num1)

lemma bit_shr1: "bit (drop_bit 1 (w :: 32 word)) n = bit w (Suc n)"
  by (simp only: bit_drop_bit_eq) simp

lemma decode_encode: "decodeZigZagValue (encodeZigZagValue d) = d"
proof (cases "bit d 31")
  case True
  have b0: "bit (push_bit 1 d XOR - 1) 0"
    by (simp only: bit_xor_iff bit_shl1) simp
  have "drop_bit 1 (push_bit 1 d XOR - 1) XOR - 1 = d"
  proof (rule bit_word_eqI)
    fix n assume n: "n < LENGTH(32)"
    show "bit (drop_bit 1 (push_bit 1 d XOR - 1) XOR - 1) n = bit d n"
    proof (cases "n < 31")
      case True
      then show ?thesis
        by (simp only: bit_xor_iff bit_shr1 bit_shl1) simp
    next
      case False
      with n have "n = 31" by simp
      with \<open>bit d 31\<close> show ?thesis
        by (simp only: bit_xor_iff bit_shr1 bit_shl1) simp
    qed
  qed
  then show ?thesis
    using True b0 by (simp only: decodeZigZagValue_def encodeZigZagValue_def sdb31 and1 if_True)
next
  case False
  have b0: "\<not> bit (push_bit 1 d) 0"
    by (simp only: bit_shl1) simp
  have "drop_bit 1 (push_bit 1 d) = d"
  proof (rule bit_word_eqI)
    fix n assume n: "n < LENGTH(32)"
    show "bit (drop_bit 1 (push_bit 1 d)) n = bit d n"
    proof (cases "n < 31")
      case True
      then show ?thesis
        by (simp only: bit_shr1 bit_shl1) simp
    next
      case F: False
      with n have "n = 31" by simp
      with False show ?thesis
        by (simp only: bit_shr1 bit_shl1) simp
    qed
  qed
  then show ?thesis
    using False b0
    by (simp only: decodeZigZagValue_def encodeZigZagValue_def sdb31 and1 if_False) simp
qed

lemma encode_decode: "encodeZigZagValue (decodeZigZagValue v) = v"
proof (cases "bit v 0")
  case True
  have hi: "bit (drop_bit 1 v XOR - 1) 31"
    by (simp only: bit_xor_iff bit_shr1) (simp add: bit_word_iff_drop_bit_and)
  have "push_bit 1 (drop_bit 1 v XOR - 1) XOR - 1 = v"
  proof (rule bit_word_eqI)
    fix n assume n: "n < LENGTH(32)"
    show "bit (push_bit 1 (drop_bit 1 v XOR - 1) XOR - 1) n = bit v n"
    proof (cases n)
      case 0
      with True show ?thesis
        by (simp only: bit_xor_iff bit_shl1) simp
    next
      case (Suc m)
      with n show ?thesis
        by (simp only: bit_xor_iff bit_shl1 bit_shr1) auto
    qed
  qed
  then show ?thesis
    using True hi by (simp only: decodeZigZagValue_def encodeZigZagValue_def sdb31 and1 if_True)
next
  case False
  have hi: "\<not> bit (drop_bit 1 v) 31"
    by (simp only: bit_shr1) (simp add: bit_word_iff_drop_bit_and)
  have "push_bit 1 (drop_bit 1 v) = v"
  proof (rule bit_word_eqI)
    fix n assume n: "n < LENGTH(32)"
    show "bit (push_bit 1 (drop_bit 1 v)) n = bit v n"
    proof (cases n)
      case 0
      with False show ?thesis
        by (simp only: bit_shl1) simp
    next
      case (Suc m)
      with n show ?thesis
        by (simp only: bit_shl1 bit_shr1) auto
    qed
  qed
  then show ?thesis
    using False hi
    by (simp only: decodeZigZagValue_def encodeZigZagValue_def sdb31 and1 if_False) simp
qed

lemma decode_encode_points: "decode_points prev (encode_points prev points) = points"
proof (induction points arbitrary: prev)
  case Nil
  show ?case by simp
next
  case (Cons p points)
  obtain lat0 lon0 where prev: "prev = Point lat0 lon0" by (cases prev)
  obtain lat1 lon1 where p: "p = Point lat1 lon1" by (cases p)
  show ?case
    by (simp add: prev p decode_encode Cons.IH)
qed

lemma encode_decode_points: "encode_points prev (decode_points prev vals) = vals"
proof (induction vals arbitrary: prev)
  case Nil
  show ?case by simp
next
  case (Cons v vals)
  obtain lat0 lon0 where prev: "prev = Point lat0 lon0" by (cases prev)
  obtain dlat dlon where v: "v = (dlat, dlon)" by (cases v)
  show ?case
    by (simp add: prev v encode_decode Cons.IH Let_def)
qed

text \<open>
  Claim C5. Decoding is the exact inverse of the zig-zag and delta encoding: with
  \<open>decodeZigZag(v) = (v >> 1) ^ -(v & 1)\<close> applied to each latitude and longitude delta and
  the deltas accumulated from zero in sequence order, decoding an encoded sequence of
  points gives back the sequence, for every sequence, the empty one and a single point
  among them; and encoding a decoded sequence gives back the stored values, so no other
  encoding decodes to the same points.
\<close>

theorem geometry_round_trip:
  "decodeZigZagValue v = (drop_bit 1 v) XOR (- (v AND 1))
   \<and> decodeGeometry (encodeGeometry points) = points
   \<and> encodeGeometry (decodeGeometry vals) = vals
   \<and> decodeGeometry (encodeGeometry []) = []
   \<and> decodeGeometry (encodeGeometry [p]) = [p]"
  by (simp only: decodeGeometry_def encodeGeometry_def decode_encode_points
      encode_decode_points decodeZigZagValue_def simp_thms)

text \<open>Two points and their stored form: the values 2, 1, 3, 4 stand for +1, -1, -2, +2.\<close>

lemma decodeGeometry_example:
  "decodeGeometry [(2, 1), (3, 4)] = [Point 1 (- 1), Point (- 1) 1]"
  by (simp add: decodeGeometry_def decodeZigZagValue_def)

lemma encodeGeometry_example:
  "encodeGeometry [Point 1 (- 1), Point (- 1) 1] = [(2, 1), (3, 4)]"
  by (simp add: encodeGeometry_def encodeZigZagValue_def)

section \<open>Properties of shared node blocks and the block cache\<close>

lemma heap_at_update:
  "heap_at (h[a := v]) b = (if b = a \<and> a < length h then v else heap_at h b)"
  by (simp add: heap_at_def)

lemma heap_at_Some_length: "heap_at h a = Some c \<Longrightarrow> a < length h"
  by (simp add: heap_at_def split: if_splits)

lemma heap_at_copy_shared:
  "heap_at (copy_shared a h) b =
     (if b = a then map_option (\<lambda>c. c\<lparr>use_count := use_count c + 1\<rparr>) (heap_at h a)
      else heap_at h b)"
  by (auto simp add: copy_shared_def heap_at_update dest: heap_at_Some_length split: option.splits)

lemma heap_at_release_shared:
  "heap_at (release_shared a h) b =
     (if b = a
      then (case heap_at h a of
              None \<Rightarrow> None
            | Some c \<Rightarrow> if use_count c \<le> 1 then None
                        else Some (c\<lparr>use_count := use_count c - 1\<rparr>))
      else heap_at h b)"
  by (auto simp add: release_shared_def heap_at_update dest: heap_at_Some_length
      split: option.splits)

lemma first_free_le: "first_free h \<le> length h"
  by (induction h) (auto split: option.splits)

lemma first_free_None: "first_free h < length h \<Longrightarrow> h ! first_free h = None"
  by (induction h) (auto split: option.splits)

lemma heap_at_first_free: "heap_at h (first_free h) = None"
  by (simp add: heap_at_def first_free_None)

lemma heap_at_append:
  "heap_at (h @ [v]) b = (if b = length h then v else heap_at h b)"
  by (auto simp add: heap_at_def nth_append)

lemma heap_at_make_shared:
  assumes "make_shared blk h = (a, h')"
  shows "heap_at h a = None"
    and "heap_at h' b = (if b = a then Some \<lparr>object = blk, use_count = 1\<rparr> else heap_at h b)"
proof -
  from assms have a: "a = first_free h"
    by (simp add: make_shared_def Let_def)
  show "heap_at h a = None"
    by (simp add: a heap_at_first_free)
  show "heap_at h' b = (if b = a then Some \<lparr>object = blk, use_count = 1\<rparr> else heap_at h b)"
  proof (cases "a < length h")
    case True
    with assms a have "h' = h[a := Some \<lparr>object = blk, use_count = 1\<rparr>]"
      by (auto simp add: make_shared_def Let_def)
    with True show ?thesis by (simp add: heap_at_update)
  next
    case False
    with first_free_le [of h] a have len: "a = length h" by simp
    with assms a have "h' = h @ [Some \<lparr>object = blk, use_count = 1\<rparr>]"
      by (auto simp add: make_shared_def Let_def)
    with len show ?thesis by (simp add: heap_at_append)
  qed
qed

lemma obj_at_copy_shared: "obj_at (copy_shared a h) b = obj_at h b"
  by (cases "heap_at h a") (simp_all add: obj_at_def heap_at_copy_shared)

lemma refs_okD:
  "refs_ok h cache held \<Longrightarrow> 0 < refs cache held a \<Longrightarrow>
     \<exists>c. heap_at h a = Some c \<and> refs cache held a \<le> use_count c"
  unfolding refs_ok_def by blast

lemma refs_okI:
  "(\<And>a. 0 < refs cache held a \<Longrightarrow>
       \<exists>c. heap_at h a = Some c \<and> refs cache held a \<le> use_count c)
   \<Longrightarrow> refs_ok h cache held"
  unfolding refs_ok_def by blast

lemma refs_le:
  assumes "refs_ok h cache held" and "heap_at h a = Some c"
  shows "refs cache held a \<le> use_count c"
proof (cases "0 < refs cache held a")
  case True
  from refs_okD [OF assms(1) True] assms(2) show ?thesis by auto
next
  case False
  then show ?thesis by simp
qed

lemma refs_upd:
  "refs cache (held(a := v)) x =
     (if x = a then count_list (map snd cache) a + v else refs cache held x)"
  by (simp add: refs_def)

lemma refs_upd_plus: "refs cache (held(a := Suc (held a))) a = Suc (refs cache held a)"
  by (simp add: refs_def)

lemma refs_upd_minus:
  "0 < held a \<Longrightarrow> Suc (refs cache (held(a := held a - Suc 0)) a) = refs cache held a"
  by (simp add: refs_def)

lemma refs_upd_other: "x \<noteq> a \<Longrightarrow> refs cache (held(a := v)) x = refs cache held x"
  by (simp add: refs_def)

lemma refs_ok_copy:
  assumes "refs_ok h cache held" and "heap_at h a = Some c"
  shows "refs_ok (copy_shared a h) cache (held(a := held a + 1))"
proof (rule refs_okI)
  fix x
  assume pos: "0 < refs cache (held(a := held a + 1)) x"
  show "\<exists>c. heap_at (copy_shared a h) x = Some c
          \<and> refs cache (held(a := held a + 1)) x \<le> use_count c"
  proof (cases "x = a")
    case True
    from refs_le [OF assms] have "Suc (refs cache held a) \<le> Suc (use_count c)" by simp
    with assms(2) True show ?thesis
      by (simp add: heap_at_copy_shared refs_upd_plus)
  next
    case False
    with pos have "0 < refs cache held x" by (simp add: refs_upd_other)
    from refs_okD [OF assms(1) this] False show ?thesis
      by (simp add: heap_at_copy_shared refs_upd_other)
  qed
qed

lemma refs_ok_release:
  assumes "refs_ok h cache held" and "0 < held a"
  shows "refs_ok (release_shared a h) cache (held(a := held a - 1))"
proof (rule refs_okI)
  fix x
  assume pos: "0 < refs cache (held(a := held a - 1)) x"
  show "\<exists>c. heap_at (release_shared a h) x = Some c
          \<and> refs cache (held(a := held a - 1)) x \<le> use_count c"
  proof (cases "x = a")
    case True
    from assms(2) have "0 < refs cache held a" by (simp add: refs_def)
    from refs_okD [OF assms(1) this] obtain c where c: "heap_at h a = Some c"
      and le: "refs cache held a \<le> use_count c" by blast
    from refs_upd_minus [where held = held and a = a and cache = cache, OF assms(2)]
      pos True le
    have "1 < use_count c" and "refs cache (held(a := held a - 1)) a \<le> use_count c - 1"
      by simp_all
    with c True show ?thesis by (simp add: heap_at_release_shared)
  next
    case False
    with pos have "0 < refs cache held x" by (simp add: refs_upd_other)
    from refs_okD [OF assms(1) this] False show ?thesis
      by (simp add: heap_at_release_shared refs_upd_other)
  qed
qed

lemma obj_at_release:
  assumes "refs_ok h cache held" and "0 < held a"
    and "0 < refs cache (held(a := held a - 1)) x"
  shows "obj_at (release_shared a h) x = obj_at h x"
proof (cases "x = a")
  case True
  from assms(2) have "0 < refs cache held a" by (simp add: refs_def)
  from refs_okD [OF assms(1) this] obtain c where c: "heap_at h a = Some c"
    and le: "refs cache held a \<le> use_count c" by blast
  from refs_upd_minus [where held = held and a = a and cache = cache, OF assms(2)]
    assms(3) True le
  have "1 < use_count c" by simp
  with c True show ?thesis by (simp add: obj_at_def heap_at_release_shared)
next
  case False
  then show ?thesis by (simp add: obj_at_def heap_at_release_shared)
qed

lemma refs_ok_make:
  assumes "refs_ok h cache held" and "make_shared blk h = (a, h')"
  shows "refs_ok h' cache (held(a := held a + 1))"
    and "obj_at h x = Some b \<Longrightarrow> obj_at h' x = Some b"
    and "heap_at h' a = Some \<lparr>object = blk, use_count = 1\<rparr>"
proof -
  note ms = heap_at_make_shared [OF assms(2)]
  have zero: "refs cache held a = 0"
  proof (rule ccontr)
    assume "refs cache held a \<noteq> 0"
    then have "0 < refs cache held a" by simp
    from refs_okD [OF assms(1) this] ms(1) show False by simp
  qed
  show "refs_ok h' cache (held(a := held a + 1))"
  proof (rule refs_okI)
    fix y
    assume pos: "0 < refs cache (held(a := held a + 1)) y"
    show "\<exists>c. heap_at h' y = Some c \<and> refs cache (held(a := held a + 1)) y \<le> use_count c"
    proof (cases "y = a")
      case True
      with zero show ?thesis by (simp add: ms(2) refs_upd_plus)
    next
      case False
      with pos have "0 < refs cache held y" by (simp add: refs_upd_other)
      from refs_okD [OF assms(1) this] False show ?thesis
        by (simp add: ms(2) refs_upd_other)
    qed
  qed
  show "obj_at h x = Some b \<Longrightarrow> obj_at h' x = Some b"
    using ms(1) by (cases "x = a") (auto simp add: obj_at_def ms(2))
  show "heap_at h' a = Some \<lparr>object = blk, use_count = 1\<rparr>"
    by (simp add: ms(2))
qed

lemma refs_to_cache:
  "0 < held a \<Longrightarrow> refs ((b, a) # cache) (held(a := held a - 1)) x = refs cache held x"
  by (simp add: refs_def)

lemma refs_ok_to_cache:
  assumes "refs_ok h cache held" and "0 < held a"
  shows "refs_ok h ((b, a) # cache) (held(a := held a - 1))"
  using assms(1)
  unfolding refs_ok_def refs_to_cache [where held = held and a = a, OF assms(2)] .

lemma count_list_butlast:
  "xs \<noteq> [] \<Longrightarrow> count_list xs x = count_list (butlast xs) x + (if last xs = x then 1 else 0)"
  by (induction xs) auto

lemma refs_from_cache:
  assumes "cache \<noteq> []"
  shows "refs (butlast cache) (held(snd (last cache) := held (snd (last cache)) + 1)) x
           = refs cache held x"
proof -
  have "count_list (map snd cache) x =
          count_list (butlast (map snd cache)) x + (if last (map snd cache) = x then 1 else 0)"
    using assms by (intro count_list_butlast) simp
  then show ?thesis
    using assms by (auto simp add: refs_def map_butlast last_map)
qed

lemma refs_ok_from_cache:
  assumes "refs_ok h cache held" and "cache \<noteq> []"
  shows "refs_ok h (butlast cache)
           (held(snd (last cache) := held (snd (last cache)) + 1))"
  using assms(1) unfolding refs_ok_def refs_from_cache [OF assms(2)] .

lemma count_list_mset: "mset xs = mset ys \<Longrightarrow> count_list xs x = count_list ys x"
  by (metis count_mset)

lemma refs_reorder:
  assumes "e \<in> set cache"
  shows "refs (e # remove1 e cache) held x = refs cache held x"
proof -
  have "mset (e # remove1 e cache) = mset cache"
    using assms by simp
  then have "mset (map snd (e # remove1 e cache)) = mset (map snd cache)"
    by (metis mset_map)
  then have "count_list (map snd (e # remove1 e cache)) x = count_list (map snd cache) x"
    by (rule count_list_mset)
  then show ?thesis by (simp only: refs_def)
qed

lemma refs_ok_reorder:
  assumes "refs_ok h cache held" and "e \<in> set cache"
  shows "refs_ok h (e # remove1 e cache) held"
  using assms(1) unfolding refs_ok_def refs_reorder [OF assms(2)] .

lemma held_restore: "(f(a := Suc (f a)))(a := (f(a := Suc (f a))) a - Suc 0) = f"
  by (rule ext) simp

lemma held_shift:
  "(f(l := Suc (f l)))(l := (f(l := Suc (f l))) l - Suc 0) = f"
  by (rule ext) simp

lemma refs_ge_held: "held x \<le> refs cache held x"
  by (simp add: refs_def)

lemma refs_pos_of_mem: "(b, a) \<in> set cache \<Longrightarrow> 0 < refs cache held a"
proof -
  assume "(b, a) \<in> set cache"
  then have "a \<in> set (map snd cache)" by force
  then have "count_list (map snd cache) a \<noteq> 0" by (simp only: count_list_0_iff not_not)
  then show ?thesis by (simp add: refs_def)
qed

lemma loadNodeBlock_Inl: "loadNodeBlock dec b g = (Inl e, g') \<Longrightarrow> g' = g"
  by (auto simp add: loadNodeBlock_def Let_def split: option.splits prod.splits if_splits)

lemma loadNodeBlock_ok:
  assumes inv: "refs_ok (heap g) (nodeBlockCache g) held"
    and ld: "loadNodeBlock dec b g = (Inr a, g')"
  shows "refs_ok (heap g') (nodeBlockCache g') (held(a := Suc (held a)))"
    and "\<And>x blk. obj_at (heap g) x = Some blk \<Longrightarrow> 0 < held x \<Longrightarrow> obj_at (heap g') x = Some blk"
    and "nodeBlockCacheSize g' = nodeBlockCacheSize g"
proof -
  let ?h = "heap g" and ?cache = "nodeBlockCache g"
  have "refs_ok (heap g') (nodeBlockCache g') (held(a := Suc (held a)))
        \<and> (\<forall>x blk. obj_at (heap g) x = Some blk \<longrightarrow> 0 < held x \<longrightarrow> obj_at (heap g') x = Some blk)
        \<and> nodeBlockCacheSize g' = nodeBlockCacheSize g"
  proof (cases "map_of ?cache b")
    case (Some a0)
    with ld have a: "a0 = a"
      and g': "g' = g\<lparr>heap := copy_shared a ?h,
                      nodeBlockCache := (b, a) # remove1 (b, a) ?cache\<rparr>"
      by (auto simp add: loadNodeBlock_def)
    from Some a have mem: "(b, a) \<in> set ?cache" by (simp add: map_of_SomeD)
    from refs_okD [OF inv refs_pos_of_mem [OF mem]]
    obtain c where c: "heap_at ?h a = Some c" by blast
    have "refs_ok (copy_shared a ?h) ?cache (held(a := held a + 1))"
      using inv c by (rule refs_ok_copy)
    then have "refs_ok (copy_shared a ?h) ((b, a) # remove1 (b, a) ?cache) (held(a := held a + 1))"
      using mem by (rule refs_ok_reorder)
    then show ?thesis
      by (simp add: g' obj_at_copy_shared)
  next
    case None
    show ?thesis
    proof (cases "dec b")
      case dn: None
      with None ld show ?thesis by (simp add: loadNodeBlock_def)
    next
      case (Some blk)
      obtain a0 h1 where ms: "make_shared blk ?h = (a0, h1)"
        by (cases "make_shared blk ?h")
      let ?held1 = "held(a0 := Suc (held a0))"
      let ?h2 = "copy_shared a0 h1"
      let ?cache1 = "(b, a0) # ?cache"
      from refs_ok_make(1) [OF inv ms] have inv1: "refs_ok h1 ?cache ?held1" by simp
      have cell: "heap_at h1 a0 = Some \<lparr>object = blk, use_count = 1\<rparr>"
        using inv ms by (rule refs_ok_make(3))
      from refs_ok_copy [OF inv1 cell]
      have inv2: "refs_ok ?h2 ?cache (?held1(a0 := Suc (?held1 a0)))" by simp
      have "refs_ok ?h2 ?cache1
              ((?held1(a0 := Suc (?held1 a0)))(a0 := (?held1(a0 := Suc (?held1 a0))) a0 - 1))"
        using inv2 by (rule refs_ok_to_cache) simp
      then have inv3: "refs_ok ?h2 ?cache1 ?held1"
        by (simp only: One_nat_def held_restore)
      have obj2: "obj_at ?h2 x = Some k" if "obj_at ?h x = Some k" for x k
        using refs_ok_make(2) [OF inv ms that] by (simp add: obj_at_copy_shared)
      show ?thesis
      proof (cases "length ?cache1 > nodeBlockCacheSize g")
        case False
        with None Some ms ld have "a = a0"
          and "g' = g\<lparr>heap := ?h2, nodeBlockCache := ?cache1\<rparr>"
          by (auto simp add: loadNodeBlock_def Let_def)
        with inv3 obj2 show ?thesis by simp
      next
        case True
        let ?l = "snd (last ?cache1)"
        from True None Some ms ld have a: "a = a0"
          and g': "g' = g\<lparr>heap := release_shared ?l ?h2, nodeBlockCache := butlast ?cache1\<rparr>"
          by (auto simp add: loadNodeBlock_def Let_def)
        let ?held3 = "?held1(?l := Suc (?held1 ?l))"
        from refs_ok_from_cache [OF inv3] have inv4: "refs_ok ?h2 (butlast ?cache1) ?held3"
          by simp
        have "refs_ok (release_shared ?l ?h2) (butlast ?cache1) (?held3(?l := ?held3 ?l - 1))"
          using inv4 by (rule refs_ok_release) simp
        then have inv5: "refs_ok (release_shared ?l ?h2) (butlast ?cache1) ?held1"
          by (simp only: One_nat_def held_shift)
        have obj3: "obj_at (release_shared ?l ?h2) x = Some k"
          if o: "obj_at ?h x = Some k" and p: "0 < held x" for x k
        proof -
          have "held x \<le> ?held1 x" by simp
          also have "\<dots> \<le> refs (butlast ?cache1) ?held1 x" by (rule refs_ge_held)
          finally have "0 < refs (butlast ?cache1) ?held1 x" using p by simp
          then have pos3: "0 < refs (butlast ?cache1) (?held3(?l := ?held3 ?l - 1)) x"
            by (simp only: One_nat_def held_shift)
          have hl: "0 < ?held3 ?l" by simp
          from obj_at_release [where h = ?h2 and cache = "butlast ?cache1" and held = ?held3
              and a = ?l and x = x, OF inv4 hl pos3]
          have "obj_at (release_shared ?l ?h2) x = obj_at ?h2 x" .
          with obj2 [OF o] show ?thesis by simp
        qed
        from inv5 obj3 show ?thesis by (simp add: g' a)
      qed
    qed
  qed
  then show "refs_ok (heap g') (nodeBlockCache g') (held(a := Suc (held a)))"
    and "\<And>x blk. obj_at (heap g) x = Some blk \<Longrightarrow> 0 < held x \<Longrightarrow> obj_at (heap g') x = Some blk"
    and "nodeBlockCacheSize g' = nodeBlockCacheSize g"
    by blast+
qed

lemma NodePtr_deref_obj:
  "NodePtr_deref p h =
     (case obj_at h (fst (NodePtr_node p)) of
        None \<Rightarrow> None
      | Some blk \<Rightarrow> if snd (NodePtr_node p) < length (nodes blk)
                    then Some (nodes blk ! snd (NodePtr_node p)) else None)"
  by (simp add: NodePtr_deref_def obj_at_def split: option.splits)

lemma NodePtr_edges_obj:
  "NodePtr_edges p h =
     (case obj_at h (fst (NodePtr_node p)) of
        None \<Rightarrow> None
      | Some blk \<Rightarrow>
          if snd (NodePtr_node p) < length (nodes blk)
          then (let n = nodes blk ! snd (NodePtr_node p)
                in Some (take (lastEdge n - firstEdge n) (drop (firstEdge n) (edges blk))))
          else None)"
  by (simp add: NodePtr_edges_def obj_at_def split: option.splits)

lemma NodePtr_new_Inr:
  assumes "NodePtr_new a i h = Inr (p, h')"
  shows "\<exists>c. heap_at h a = Some c \<and> size_t_of_int i < length (nodes (object c))
           \<and> p = \<lparr>NodePtr_node = (a, size_t_of_int i), NodePtr_nodeBlock = a\<rparr>
           \<and> h' = copy_shared a h"
  using assms
  by (auto simp add: NodePtr_new_def vector_at_def split: option.splits if_splits)

lemma getNode_ok:
  assumes inv: "refs_ok (heap g) (nodeBlockCache g) held"
    and gn: "getNode dec nodeId g = (r, g')"
  shows "\<exists>held'. refs_ok (heap g') (nodeBlockCache g') held' \<and> (\<forall>x. held x \<le> held' x)
           \<and> (\<forall>p. r = Inr p \<longrightarrow>
                 0 < held' (NodePtr_nodeBlock p)
                 \<and> fst (NodePtr_node p) = NodePtr_nodeBlock p
                 \<and> (\<exists>blk. obj_at (heap g') (NodePtr_nodeBlock p) = Some blk
                       \<and> snd (NodePtr_node p) < length (nodes blk))
                 \<and> held' = held(NodePtr_nodeBlock p := Suc (held (NodePtr_nodeBlock p))))
           \<and> (\<forall>e. r = Inl e \<longrightarrow> held' = held)"
    and "\<And>x blk. obj_at (heap g) x = Some blk \<Longrightarrow> 0 < held x \<Longrightarrow> obj_at (heap g') x = Some blk"
proof -
  obtain r1 g1 where ld: "loadNodeBlock dec (blockId nodeId) g = (r1, g1)"
    by (cases "loadNodeBlock dec (blockId nodeId) g")
  have "(\<exists>held'. refs_ok (heap g') (nodeBlockCache g') held' \<and> (\<forall>x. held x \<le> held' x)
           \<and> (\<forall>p. r = Inr p \<longrightarrow>
                 0 < held' (NodePtr_nodeBlock p)
                 \<and> fst (NodePtr_node p) = NodePtr_nodeBlock p
                 \<and> (\<exists>blk. obj_at (heap g') (NodePtr_nodeBlock p) = Some blk
                       \<and> snd (NodePtr_node p) < length (nodes blk))
                 \<and> held' = held(NodePtr_nodeBlock p := Suc (held (NodePtr_nodeBlock p))))
           \<and> (\<forall>e. r = Inl e \<longrightarrow> held' = held))
        \<and> (\<forall>x blk. obj_at (heap g) x = Some blk \<longrightarrow> 0 < held x \<longrightarrow> obj_at (heap g') x = Some blk)"
  proof (cases r1)
    case (Inl e)
    with ld have "g1 = g" by (simp add: loadNodeBlock_Inl)
    with Inl ld gn have "r = Inl e" and "g' = g" by (simp_all add: getNode_def)
    with inv show ?thesis by auto
  next
    case (Inr a)
    let ?held1 = "held(a := Suc (held a))"
    let ?h1 = "heap g1" and ?cache1 = "nodeBlockCache g1"
    from Inr ld have ld': "loadNodeBlock dec (blockId nodeId) g = (Inr a, g1)" by simp
    note inv1 = loadNodeBlock_ok(1) [OF inv ld']
    note obj1 = loadNodeBlock_ok(2) [OF inv ld']
    have h1a: "0 < ?held1 a" by simp
    have pos_refs: "0 < refs ?cache1 held x" if "0 < held x" for x
      using that refs_ge_held [of held x ?cache1] by simp
    show ?thesis
    proof (cases "NodePtr_new a (elementIndex nodeId) ?h1")
      case e: (Inl e)
      with ld' gn have r: "r = Inl e" and g': "g' = g1\<lparr>heap := release_shared a ?h1\<rparr>"
        by (simp_all add: getNode_def)
      have "refs_ok (release_shared a ?h1) ?cache1 (?held1(a := ?held1 a - 1))"
        using inv1 h1a by (rule refs_ok_release)
      then have inv2: "refs_ok (release_shared a ?h1) ?cache1 held"
        by (simp only: One_nat_def held_restore)
      have obj2: "obj_at (release_shared a ?h1) x = Some blk"
        if o: "obj_at (heap g) x = Some blk" and p: "0 < held x" for x blk
      proof -
        from pos_refs [OF p] have "0 < refs ?cache1 (?held1(a := ?held1 a - 1)) x"
          by (simp only: One_nat_def held_restore)
        from obj_at_release [where h = ?h1 and cache = ?cache1 and held = ?held1 and a = a
            and x = x, OF inv1 h1a this] obj1 [OF o p]
        show ?thesis by simp
      qed
      from inv2 obj2 r show ?thesis by (auto simp add: g')
    next
      case (Inr ph)
      obtain p h2 where ph: "ph = (p, h2)" by (cases ph)
      from NodePtr_new_Inr [of a "elementIndex nodeId" ?h1 p h2] Inr ph
      obtain c where c: "heap_at ?h1 a = Some c"
        and i: "size_t_of_int (elementIndex nodeId) < length (nodes (object c))"
        and p: "p = \<lparr>NodePtr_node = (a, size_t_of_int (elementIndex nodeId)),
                     NodePtr_nodeBlock = a\<rparr>"
        and h2: "h2 = copy_shared a ?h1"
        by auto
      from Inr ph ld' gn have r: "r = Inr p" and g': "g' = g1\<lparr>heap := release_shared a h2\<rparr>"
        by (simp_all add: getNode_def)
      let ?held2 = "?held1(a := Suc (?held1 a))"
      from refs_ok_copy [OF inv1 c] have inv2: "refs_ok h2 ?cache1 ?held2"
        by (simp add: h2)
      have h2a: "0 < ?held2 a" by simp
      have "refs_ok (release_shared a h2) ?cache1 (?held2(a := ?held2 a - 1))"
        using inv2 h2a by (rule refs_ok_release)
      then have inv3: "refs_ok (release_shared a h2) ?cache1 ?held1"
        by (simp only: One_nat_def held_restore)
      have keep: "obj_at (release_shared a h2) x = obj_at ?h1 x" if "0 < ?held1 x" for x
      proof -
        from that refs_ge_held [of ?held1 x ?cache1] have "0 < refs ?cache1 ?held1 x" by simp
        then have "0 < refs ?cache1 (?held2(a := ?held2 a - 1)) x"
          by (simp only: One_nat_def held_restore)
        from obj_at_release [where h = h2 and cache = ?cache1 and held = ?held2 and a = a
            and x = x, OF inv2 h2a this]
        show ?thesis by (simp add: h2 obj_at_copy_shared)
      qed
      have obj3: "obj_at (release_shared a h2) x = Some blk"
        if o: "obj_at (heap g) x = Some blk" and q: "0 < held x" for x blk
      proof -
        from q have "0 < ?held1 x" by simp
        from keep [OF this] obj1 [OF o q] show ?thesis by simp
      qed
      have "obj_at (release_shared a h2) a = obj_at ?h1 a"
        by (rule keep) simp
      with c have blk: "obj_at (release_shared a h2) a = Some (object c)"
        by (simp add: obj_at_def)
      have le: "\<forall>x. held x \<le> ?held1 x" by simp
      show ?thesis
        using inv3 le blk i obj3 r p by (auto simp add: g')
    qed
  qed
  then show "\<exists>held'. refs_ok (heap g') (nodeBlockCache g') held' \<and> (\<forall>x. held x \<le> held' x)
           \<and> (\<forall>p. r = Inr p \<longrightarrow>
                 0 < held' (NodePtr_nodeBlock p)
                 \<and> fst (NodePtr_node p) = NodePtr_nodeBlock p
                 \<and> (\<exists>blk. obj_at (heap g') (NodePtr_nodeBlock p) = Some blk
                       \<and> snd (NodePtr_node p) < length (nodes blk))
                 \<and> held' = held(NodePtr_nodeBlock p := Suc (held (NodePtr_nodeBlock p))))
           \<and> (\<forall>e. r = Inl e \<longrightarrow> held' = held)"
    and "\<And>x blk. obj_at (heap g) x = Some blk \<Longrightarrow> 0 < held x \<Longrightarrow> obj_at (heap g') x = Some blk"
    by blast+
qed

lemma run_op_ok:
  assumes inv: "refs_ok (heap g) (nodeBlockCache g) held"
  shows "\<exists>held'. refs_ok (heap (run_op dec op g)) (nodeBlockCache (run_op dec op g)) held'
           \<and> (\<forall>x. held x \<le> held' x)"
    and "\<And>x blk. obj_at (heap g) x = Some blk \<Longrightarrow> 0 < held x
           \<Longrightarrow> obj_at (heap (run_op dec op g)) x = Some blk"
proof -
  have "(\<exists>held'. refs_ok (heap (run_op dec op g)) (nodeBlockCache (run_op dec op g)) held'
           \<and> (\<forall>x. held x \<le> held' x))
      \<and> (\<forall>x blk. obj_at (heap g) x = Some blk \<longrightarrow> 0 < held x
           \<longrightarrow> obj_at (heap (run_op dec op g)) x = Some blk)"
  proof (cases op)
    case (GetAndHold nodeId)
    obtain r g' where gn: "getNode dec nodeId g = (r, g')" by (cases "getNode dec nodeId g")
    from getNode_ok(1) [OF inv gn] getNode_ok(2) [OF inv gn] GetAndHold gn
    show ?thesis by auto
  next
    case (GetAndRelease nodeId)
    obtain r g' where gn: "getNode dec nodeId g = (r, g')" by (cases "getNode dec nodeId g")
    note obj1 = getNode_ok(2) [OF inv gn]
    from getNode_ok(1) [OF inv gn] obtain held' where inv1: "refs_ok (heap g') (nodeBlockCache g') held'"
      and le: "\<forall>x. held x \<le> held' x"
      and ok: "\<forall>p. r = Inr p \<longrightarrow> 0 < held' (NodePtr_nodeBlock p)
                 \<and> held' = held(NodePtr_nodeBlock p := Suc (held (NodePtr_nodeBlock p)))"
      and err: "\<forall>e. r = Inl e \<longrightarrow> held' = held"
      by blast
    show ?thesis
    proof (cases r)
      case (Inl e)
      with GetAndRelease gn have "run_op dec op g = g'" by simp
      with inv1 le obj1 show ?thesis by auto
    next
      case (Inr p)
      let ?a = "NodePtr_nodeBlock p"
      from Inr GetAndRelease gn
      have ro: "run_op dec op g = g'\<lparr>heap := release_shared ?a (heap g')\<rparr>"
        by (simp add: NodePtr_delete_def)
      from ok Inr have pa: "0 < held' ?a" and h': "held' = held(?a := Suc (held ?a))"
        by auto
      have "refs_ok (release_shared ?a (heap g')) (nodeBlockCache g') (held'(?a := held' ?a - 1))"
        using inv1 pa by (rule refs_ok_release)
      then have inv2: "refs_ok (release_shared ?a (heap g')) (nodeBlockCache g') held"
        unfolding h' by (simp only: One_nat_def held_restore)
      have obj2: "obj_at (release_shared ?a (heap g')) x = Some blk"
        if o: "obj_at (heap g) x = Some blk" and q: "0 < held x" for x blk
      proof -
        from q refs_ge_held [of held x "nodeBlockCache g'"]
        have "0 < refs (nodeBlockCache g') held x" by simp
        then have "0 < refs (nodeBlockCache g') (held'(?a := held' ?a - 1)) x"
          unfolding h' by (simp only: One_nat_def held_restore)
        from obj_at_release [where h = "heap g'" and cache = "nodeBlockCache g'"
            and held = held' and a = ?a and x = x, OF inv1 pa this] obj1 [OF o q]
        show ?thesis by simp
      qed
      from inv2 obj2 show ?thesis by (auto simp add: ro)
    qed
  qed
  then show "\<exists>held'. refs_ok (heap (run_op dec op g)) (nodeBlockCache (run_op dec op g)) held'
           \<and> (\<forall>x. held x \<le> held' x)"
    and "\<And>x blk. obj_at (heap g) x = Some blk \<Longrightarrow> 0 < held x
           \<Longrightarrow> obj_at (heap (run_op dec op g)) x = Some blk"
    by blast+
qed

lemma run_ops_ok:
  assumes "refs_ok (heap g) (nodeBlockCache g) held"
  shows "(\<exists>held'. refs_ok (heap (run_ops dec ops g)) (nodeBlockCache (run_ops dec ops g)) held'
            \<and> (\<forall>x. held x \<le> held' x))
       \<and> (\<forall>x blk. obj_at (heap g) x = Some blk \<longrightarrow> 0 < held x
            \<longrightarrow> obj_at (heap (run_ops dec ops g)) x = Some blk)"
  using assms
proof (induction ops arbitrary: g held)
  case Nil
  then show ?case by (auto simp add: run_ops_def)
next
  case (Cons op ops)
  from run_op_ok(1) [OF Cons.prems, of dec op]
  obtain held1 where inv1: "refs_ok (heap (run_op dec op g)) (nodeBlockCache (run_op dec op g)) held1"
    and le1: "\<forall>x. held x \<le> held1 x" by blast
  note obj1 = run_op_ok(2) [OF Cons.prems, of _ _ dec op]
  from Cons.IH [OF inv1]
  obtain held2 where inv2: "refs_ok (heap (run_ops dec ops (run_op dec op g)))
                  (nodeBlockCache (run_ops dec ops (run_op dec op g))) held2"
    and le2: "\<forall>x. held1 x \<le> held2 x"
    and obj2: "\<forall>x blk. obj_at (heap (run_op dec op g)) x = Some blk \<longrightarrow> 0 < held1 x
            \<longrightarrow> obj_at (heap (run_ops dec ops (run_op dec op g))) x = Some blk"
    by blast
  have eq: "run_ops dec (op # ops) g = run_ops dec ops (run_op dec op g)"
    by (simp add: run_ops_def)
  have "\<forall>x. held x \<le> held2 x"
    using le1 le2 by (meson order_trans)
  moreover have "obj_at (heap (run_ops dec ops (run_op dec op g))) x = Some blk"
    if o: "obj_at (heap g) x = Some blk" and q: "0 < held x" for x blk
  proof -
    from q le1 have "0 < held1 x" by (metis less_le_trans)
    with obj1 [OF o q] obj2 show ?thesis by blast
  qed
  ultimately show ?case using inv2 unfolding eq by blast
qed

lemma refs_ok_new: "refs_ok (heap (RoutingGraph_new capacity))
   (nodeBlockCache (RoutingGraph_new capacity)) (\<lambda>a. 0)"
  by (simp add: refs_ok_def refs_def RoutingGraph_new_def)

text \<open>
  Claim C2. A handle obtained from getNode, in any state the graph reaches from a new
  graph by lookups of callers, yields a node and its edges, and after any further
  sequence of lookups (each of which may load a block and evict another, also the block
  the handle points into) it yields the same node and the same edges: the handle's
  shared pointer keeps the cell of its block allocated and no lookup writes to it.
\<close>

theorem node_handle_survives_eviction:
  assumes "getNode dec nodeId (run_ops dec before (RoutingGraph_new capacity)) = (Inr p, g)"
  shows "NodePtr_deref p (heap g) \<noteq> None
       \<and> NodePtr_deref p (heap (run_ops dec after g)) = NodePtr_deref p (heap g)
       \<and> NodePtr_edges p (heap g) \<noteq> None
       \<and> NodePtr_edges p (heap (run_ops dec after g)) = NodePtr_edges p (heap g)"
proof -
  let ?g0 = "run_ops dec before (RoutingGraph_new capacity)"
  from run_ops_ok [OF refs_ok_new, of dec before capacity]
  obtain held0 where inv0: "refs_ok (heap ?g0) (nodeBlockCache ?g0) held0" by blast
  from getNode_ok(1) [OF inv0 assms]
  obtain held1 blk where inv1: "refs_ok (heap g) (nodeBlockCache g) held1"
    and pin: "0 < held1 (NodePtr_nodeBlock p)"
    and raw: "fst (NodePtr_node p) = NodePtr_nodeBlock p"
    and blk: "obj_at (heap g) (NodePtr_nodeBlock p) = Some blk"
    and i: "snd (NodePtr_node p) < length (nodes blk)"
    by blast
  from run_ops_ok [OF inv1, of dec after] blk pin
  have blk': "obj_at (heap (run_ops dec after g)) (NodePtr_nodeBlock p) = Some blk"
    by blast
  show ?thesis
    using blk blk' i raw by (simp add: NodePtr_deref_obj NodePtr_edges_obj Let_def)
qed

text \<open>
  The theorem at a graph whose cache holds one block: a handle to node 1 of block 0 is
  taken, then nodes of the blocks 1, 2 and 3 are looked up. Block 0 leaves the cache, and
  the handle still reads the same node.
\<close>

theorem node_handle_survives_eviction_witness:
  "getNode test_decode (nid 0 1) (run_ops test_decode [] (RoutingGraph_new 1))
     = (Inr test_handle, test_graph)
   \<and> map fst (nodeBlockCache (run_ops test_decode test_later test_graph)) = [blockId (nid 3 1)]
   \<and> NodePtr_deref test_handle (heap test_graph) \<noteq> None
   \<and> NodePtr_deref test_handle (heap (run_ops test_decode test_later test_graph))
       = NodePtr_deref test_handle (heap test_graph)
   \<and> NodePtr_edges test_handle (heap test_graph) \<noteq> None
   \<and> NodePtr_edges test_handle (heap (run_ops test_decode test_later test_graph))
       = NodePtr_edges test_handle (heap test_graph)"
proof -
  have h: "getNode test_decode (nid 0 1) (run_ops test_decode [] (RoutingGraph_new 1))
     = (Inr test_handle, test_graph)"
    by code_simp
  have e: "map fst (nodeBlockCache (run_ops test_decode test_later test_graph))
             = [blockId (nid 3 1)]"
    by code_simp
  from h e node_handle_survives_eviction [OF h, of test_later] show ?thesis
    by (intro conjI) blast+
qed

text \<open>What the handle reads after the evictions, computed.\<close>

lemma test_handle_after_eviction:
  "NodePtr_deref test_handle (heap (run_ops test_decode test_later test_graph))
     = Some (test_node 100)"
  by code_simp

text \<open>
  The shared pointer is what protects the handle. When the handle is destroyed first, the
  same lookups free the cell of block 0 and give its address to block 2: the raw pointer
  alone then reads a node of another block.
\<close>

lemma raw_pointer_dangles_without_shared_pointer:
  "NodePtr_deref test_handle
     (heap (run_ops test_decode test_later
              (test_graph\<lparr>heap := NodePtr_delete test_handle (heap test_graph)\<rparr>)))
     = Some (test_node 102)"
  by code_simp

section \<open>Properties of getNode: the index check\<close>

lemma size_t_of_int_nonneg: "0 \<le> i \<Longrightarrow> i < 2 ^ 64 \<Longrightarrow> size_t_of_int i = nat i"
  by (simp add: size_t_of_int_def)

lemma size_t_of_int_neg:
  assumes "- (2 ^ 31) \<le> i" and "i < 0"
  shows "size_t_of_int i = nat (i + 2 ^ 64)"
proof -
  have "i mod 2 ^ 64 = (i + 2 ^ 64) mod 2 ^ 64" by simp
  also have "\<dots> = i + 2 ^ 64" using assms by (intro mod_pos_pos_trivial) simp_all
  finally show ?thesis by (simp add: size_t_of_int_def)
qed

text \<open>
  Claim C7. Let the block that \<open>loadNodeBlock\<close> returns for the node's block id be alive
  (its cell is allocated and in use), the element index a value of type \<open>int\<close> and the
  block of fewer than \<open>2^63\<close> nodes. When the index is out of range for the block (negative,
  or not below the number of nodes), getNode fails with the error \<open>out_of_range\<close> and
  returns no handle; when it is in range, getNode returns a handle that reads exactly the
  node at that index.
\<close>

theorem getNode_index_check:
  assumes ld: "loadNodeBlock dec (blockId nodeId) g = (Inr a, g1)"
    and cell: "heap_at (heap g1) a = Some cell"
    and cnt: "0 < use_count cell"
    and lo: "- (2 ^ 31) \<le> elementIndex nodeId"
    and hi: "elementIndex nodeId < 2 ^ 31"
    and len: "length (nodes (object cell)) < 2 ^ 63"
  shows "(0 \<le> elementIndex nodeId \<and> elementIndex nodeId < int (length (nodes (object cell)))
          \<longrightarrow> (\<exists>p g2. getNode dec nodeId g = (Inr p, g2)
                 \<and> NodePtr_deref p (heap g2)
                     = Some (nodes (object cell) ! nat (elementIndex nodeId))))
       \<and> (\<not> (0 \<le> elementIndex nodeId \<and> elementIndex nodeId < int (length (nodes (object cell))))
          \<longrightarrow> (\<exists>g2. getNode dec nodeId g = (Inl out_of_range, g2)))"
proof (cases "0 \<le> elementIndex nodeId \<and> elementIndex nodeId < int (length (nodes (object cell)))")
  case True
  let ?i = "nat (elementIndex nodeId)"
  let ?p = "\<lparr>NodePtr_node = (a, ?i), NodePtr_nodeBlock = a\<rparr>"
  have st: "size_t_of_int (elementIndex nodeId) = ?i"
    using True hi by (simp add: size_t_of_int_nonneg)
  have i: "?i < length (nodes (object cell))"
    using True by (simp add: nat_less_iff)
  have new: "NodePtr_new a (elementIndex nodeId) (heap g1) = Inr (?p, copy_shared a (heap g1))"
    using cell st i by (simp add: NodePtr_new_def vector_at_def)
  have gn: "getNode dec nodeId g =
      (Inr ?p, g1\<lparr>heap := release_shared a (copy_shared a (heap g1))\<rparr>)"
    using ld new by (simp add: getNode_def)
  have "heap_at (release_shared a (copy_shared a (heap g1))) a = Some cell"
    using cell cnt by (simp add: heap_at_release_shared heap_at_copy_shared)
  then have "NodePtr_deref ?p (heap (g1\<lparr>heap := release_shared a (copy_shared a (heap g1))\<rparr>))
               = Some (nodes (object cell) ! ?i)"
    using i by (simp add: NodePtr_deref_def)
  with gn True show ?thesis by blast
next
  case False
  have "\<not> size_t_of_int (elementIndex nodeId) < length (nodes (object cell))"
  proof (cases "elementIndex nodeId < 0")
    case True
    from size_t_of_int_neg [OF lo True] lo len show ?thesis by simp
  next
    case nonneg: False
    have "size_t_of_int (elementIndex nodeId) = nat (elementIndex nodeId)"
      using nonneg hi by (simp add: size_t_of_int_nonneg)
    with False nonneg show ?thesis by (simp add: nat_less_iff)
  qed
  then have "NodePtr_new a (elementIndex nodeId) (heap g1) = Inl out_of_range"
    using cell by (simp add: NodePtr_new_def vector_at_def)
  with ld have "getNode dec nodeId g = (Inl out_of_range, g1\<lparr>heap := release_shared a (heap g1)\<rparr>)"
    by (simp add: getNode_def)
  with False show ?thesis by blast
qed

lemma test_load:
  "loadNodeBlock test_decode (blockId (nid 0 1)) (RoutingGraph_new 1) = (Inr 0, test_graph)"
  by code_simp

text \<open>
  The theorem at a block of two nodes: index 1 gives the second node, the indices 2 and
  -1 give the error.
\<close>

theorem getNode_index_check_witness:
  "loadNodeBlock test_decode (blockId (nid 0 1)) (RoutingGraph_new 1) = (Inr 0, test_graph)
   \<and> heap_at (heap test_graph) 0 = Some \<lparr>object = test_block 0, use_count = 2\<rparr>
   \<and> (\<exists>p g2. getNode test_decode (nid 0 1) (RoutingGraph_new 1) = (Inr p, g2)
         \<and> NodePtr_deref p (heap g2) = Some (test_node 100))
   \<and> (\<exists>g2. getNode test_decode (nid 0 2) (RoutingGraph_new 1) = (Inl out_of_range, g2))
   \<and> (\<exists>g2. getNode test_decode (nid 0 (- 1)) (RoutingGraph_new 1) = (Inl out_of_range, g2))"
proof -
  let ?cell = "\<lparr>object = test_block 0, use_count = 2\<rparr>"
  have ld: "loadNodeBlock test_decode (blockId (nid 0 i)) (RoutingGraph_new 1) = (Inr 0, test_graph)"
    for i
    using test_load by (simp add: nid_def)
  have cell: "heap_at (heap test_graph) 0 = Some ?cell"
    by (simp add: test_graph_def heap_at_def)
  have cnt: "0 < use_count ?cell" by simp
  have len: "length (nodes (object ?cell)) < 2 ^ 63"
    by (simp add: test_block_def)
  have n: "nodes (object ?cell) ! nat 1 = test_node 100"
    by (simp add: test_block_def)
  have l2: "length (nodes (object ?cell)) = 2"
    by (simp add: test_block_def)
  have a: "\<exists>p g2. getNode test_decode (nid 0 1) (RoutingGraph_new 1) = (Inr p, g2)
         \<and> NodePtr_deref p (heap g2) = Some (test_node 100)"
    using getNode_index_check [OF ld [of 1] cell cnt _ _ len] n l2
    by (simp add: nid_def)
  have b: "\<exists>g2. getNode test_decode (nid 0 2) (RoutingGraph_new 1) = (Inl out_of_range, g2)"
    using getNode_index_check [OF ld [of 2] cell cnt _ _ len] l2
    by (simp add: nid_def)
  have c: "\<exists>g2. getNode test_decode (nid 0 (- 1)) (RoutingGraph_new 1) = (Inl out_of_range, g2)"
    using getNode_index_check [OF ld [of "- 1"] cell cnt _ _ len] l2
    by (simp add: nid_def)
  from ld [of 1] cell a b c show ?thesis by blast
qed

section \<open>Properties of the XML parser at the root element\<close>

lemma root_attributes_no_version:
  "''version'' \<notin> fst ` set attrs \<Longrightarrow>
     \<exists>h'. root_attributes attrs h = Inr h' \<and> Header_get h' ''version'' = Header_get h ''version''"
proof (induction attrs arbitrary: h)
  case Nil
  show ?case by simp
next
  case (Cons a attrs)
  obtain name val where a: "a = (name, val)" by (cases a)
  from Cons.prems a have nv: "name \<noteq> ''version''" and rest: "''version'' \<notin> fst ` set attrs"
    by auto
  show ?case
  proof (cases "name = ''generator''")
    case True
    from Cons.IH [OF rest, of "Header_set ''generator'' val h"]
    show ?thesis using a nv True by (simp add: Header_get_def Header_set_def)
  next
    case False
    from Cons.IH [OF rest, of h] show ?thesis using a nv False by simp
  qed
qed

lemma root_attributes_bad_version:
  "(''version'', v) \<in> set attrs \<Longrightarrow> v \<noteq> ''0.6'' \<Longrightarrow> distinct (map fst attrs) \<Longrightarrow>
     root_attributes attrs h = Inl (format_version_error_of v)"
proof (induction attrs arbitrary: h)
  case Nil
  then show ?case by simp
next
  case (Cons a attrs)
  obtain name val where a: "a = (name, val)" by (cases a)
  show ?case
  proof (cases "name = ''version''")
    case True
    with Cons.prems a have "val = v"
      by (auto simp add: image_iff)
    with True a Cons.prems(2) show ?thesis by simp
  next
    case False
    with Cons.prems a have mem: "(''version'', v) \<in> set attrs" and d: "distinct (map fst attrs)"
      by auto
    show ?thesis
      using False a Cons.IH [OF mem Cons.prems(2) d] by simp
  qed
qed

text \<open>
  Claim C10. When the parser is at the root and the element is osm or osmChange: a
  version attribute whose value differs from "0.6" (attribute names are distinct in a
  well-formed document) makes \<open>start_element\<close> throw a format_version_error that carries
  that version; no version attribute at all, on a parser whose header has no version
  yet, makes it throw the format_version_error for a missing version. In both cases the
  parse of the document ends with that exception, whatever elements follow the root.
\<close>

theorem root_version_check:
  assumes "m_context p = root"
    and "element = ''osm'' \<or> element = ''osmChange''"
  shows "((''version'', v) \<in> set attrs \<and> v \<noteq> ''0.6'' \<and> distinct (map fst attrs)
          \<longrightarrow> start_element below element attrs p = Inl (format_version_error_of v)
              \<and> version (format_version_error_of v) = v
              \<and> parse_events below end_element (StartElement element attrs # events) p
                  = Inl (format_version_error_of v))
       \<and> (''version'' \<notin> fst ` set attrs \<and> Header_get (m_header p) ''version'' = ''''
          \<longrightarrow> start_element below element attrs p = Inl format_version_error_missing
              \<and> parse_events below end_element (StartElement element attrs # events) p
                  = Inl format_version_error_missing)"
proof -
  let ?h = "if element = ''osmChange''
            then (m_header p)\<lparr>has_multiple_object_versions := True\<rparr> else m_header p"
  have bad: "start_element below element attrs p = Inl (format_version_error_of v)"
    if "(''version'', v) \<in> set attrs" "v \<noteq> ''0.6''" "distinct (map fst attrs)"
    using assms root_attributes_bad_version [OF that, of ?h]
    by (simp add: start_element_def Let_def)
  have missing: "start_element below element attrs p = Inl format_version_error_missing"
    if nv: "''version'' \<notin> fst ` set attrs" and e: "Header_get (m_header p) ''version'' = ''''"
  proof -
    from root_attributes_no_version [OF nv, of ?h]
    obtain h' where h': "root_attributes attrs ?h = Inr h'"
      and g: "Header_get h' ''version'' = Header_get ?h ''version''"
      by blast
    have "Header_get ?h ''version'' = ''''"
      using e by (simp add: Header_get_def)
    with g h' assms show ?thesis
      by (simp add: start_element_def Let_def)
  qed
  show ?thesis
    using bad missing by (simp add: format_version_error_of_def)
qed

text \<open>
  The theorem at a new parser: a root element with version 0.5, and one with no version,
  each followed by a node element that is never reached.
\<close>

theorem root_version_check_witness:
  "m_context XMLParser_init = root
   \<and> (''version'', ''0.5'') \<in> set osm_attributes_05
   \<and> distinct (map fst osm_attributes_05)
   \<and> ''version'' \<notin> fst ` set osm_attributes_none
   \<and> Header_get (m_header XMLParser_init) ''version'' = ''''
   \<and> parse_events no_handler no_end_handler
        [StartElement ''osm'' osm_attributes_05, StartElement ''node'' []] XMLParser_init
       = Inl (format_version_error ''Can not read file with version 0.5'' ''0.5'')
   \<and> parse_events no_handler no_end_handler
        [StartElement ''osm'' osm_attributes_none, StartElement ''node'' []] XMLParser_init
       = Inl format_version_error_missing"
proof -
  have c: "m_context XMLParser_init = root"
    by (simp add: XMLParser_init_def)
  have e: "''osm'' = ''osm'' \<or> ''osm'' = ''osmChange''"
    by simp
  have h1: "(''version'', ''0.5'') \<in> set osm_attributes_05 \<and> ''0.5'' \<noteq> ''0.6''
            \<and> distinct (map fst osm_attributes_05)"
    by (simp add: osm_attributes_05_def)
  have h2: "''version'' \<notin> fst ` set osm_attributes_none
            \<and> Header_get (m_header XMLParser_init) ''version'' = ''''"
    by (simp add: osm_attributes_none_def XMLParser_init_def Header_get_def)
  from conjunct1 [OF root_version_check [OF c e, of "''0.5''" osm_attributes_05 no_handler
        no_end_handler "[StartElement ''node'' []]"]] h1
  have r1: "start_element no_handler ''osm'' osm_attributes_05 XMLParser_init
              = Inl (format_version_error_of ''0.5'')
            \<and> version (format_version_error_of ''0.5'') = ''0.5''
            \<and> parse_events no_handler no_end_handler
                 [StartElement ''osm'' osm_attributes_05, StartElement ''node'' []] XMLParser_init
                = Inl (format_version_error_of ''0.5'')"
    by (rule mp)
  from conjunct2 [OF root_version_check [OF c e, of "''0.5''" osm_attributes_none no_handler
        no_end_handler "[StartElement ''node'' []]"]] h2
  have r2: "start_element no_handler ''osm'' osm_attributes_none XMLParser_init
              = Inl format_version_error_missing
            \<and> parse_events no_handler no_end_handler
                 [StartElement ''osm'' osm_attributes_none, StartElement ''node'' []] XMLParser_init
                = Inl format_version_error_missing"
    by (rule mp)
  show ?thesis
    using c h1 h2 r1 r2 by (simp add: format_version_error_of_def)
qed

text \<open>A root element with version 0.6 is accepted and the parser moves below the root.\<close>

lemma root_version_06_accepted:
  "map_sum id m_context
     (start_element no_handler ''osm'' [(''version'', ''0.6'')] XMLParser_init) = Inr top"
  by (simp add: start_element_def XMLParser_init_def Header_get_def Header_set_def)

end
